theory Spec2Isabelle
  imports Main "HOL-Library.Word"
begin

unbundle bit_operations_syntax

section \<open>The RAC index reader of \<open>lib/rac/reader.go\<close>\<close>

text \<open>
  A shallow embedding of the reader: the node codec (\<open>rNode\<close> and its accessors,
  \<open>valid\<close>), the root locator (\<open>findRootNode\<close>, \<open>tryRootNode\<close>), and the cursor
  (\<open>SeekToChunkContaining\<close>, \<open>NextChunk\<close>, \<open>resolveSeekPosition\<close>).

  Conventions.
  \<^item> A byte is an \<open>8 word\<close>. Go's \<open>int\<close>, \<open>int32\<close> and \<open>int64\<close> values are \<open>int\<close> (slot
    numbers and buffer indices, which are never negative, are \<open>nat\<close>); the \<open>int64\<close>
    additions of a bias and a table entry wrap around through \<open>i64\<close>.
  \<^item> \<open>rNode\<close>, a \<open>[4096]byte\<close> array, is a function from the index to the byte. Every
    index the code computes is at most \<open>16 * 255 + 15 = 4095\<close> when the slot number is
    at most the arity, so the array bound is never hit.
  \<^item> A returned \<open>error\<close> is an \<open>error option\<close> (\<open>None\<close> is Go's \<open>nil\<close>); a panic is the
    outcome \<open>Panic\<close>; a loop that may run forever is a \<open>partial_function\<close> whose value
    \<open>None\<close> means that the call does not return.
\<close>

subsection \<open>Machine integers\<close>

type_synonym byte = "8 word"

text \<open>Two's complement wrap-around of an \<open>int64\<close> result.\<close>

definition i64 :: "int \<Rightarrow> int" where
  "i64 x = (x + 2 ^ 63) mod 2 ^ 64 - 2 ^ 63"

text \<open>The \<open>uint64\<close> value \<open>u\<close> that \<open>u48LE\<close> assembles from \<open>b[0]\<close> .. \<open>b[7]\<close>.\<close>

definition le64 :: "byte list \<Rightarrow> 64 word" where
  "le64 b =
     ucast (b ! 0) OR push_bit 8 (ucast (b ! 1)) OR push_bit 16 (ucast (b ! 2)) OR
     push_bit 24 (ucast (b ! 3)) OR push_bit 32 (ucast (b ! 4)) OR
     push_bit 40 (ucast (b ! 5)) OR push_bit 48 (ucast (b ! 6)) OR
     push_bit 56 (ucast (b ! 7))"

text \<open>
  \<open>u48LE\<close>: the early bounds check \<open>_ = b[7]\<close> panics on a slice shorter than eight
  bytes (\<open>None\<close>); otherwise the result is \<open>int64(u & 0xFFFFFFFFFFFF)\<close>.
\<close>

definition u48LE :: "byte list \<Rightarrow> int option" where
  "u48LE b = (if length b < 8 then None else Some (sint (le64 b AND 0xFFFFFFFFFFFF)))"

subsection \<open>CRC-32\<close>

text \<open>
  \<open>crc32.ChecksumIEEE\<close> belongs to Go's standard library, not to this repository. It is
  the CRC-32 of IEEE 802.3: reflected polynomial \<open>0xEDB88320\<close>, initial value and final
  complement \<open>0xFFFFFFFF\<close>. The \<open>uint32\<close> register is an \<open>int\<close> in \<open>[0, 2^32)\<close>.
\<close>

definition crc_shift :: "int \<Rightarrow> int" where
  "crc_shift c = (if odd c then (c div 2) XOR 0xEDB88320 else c div 2)"

definition crc_update :: "int \<Rightarrow> byte \<Rightarrow> int" where
  "crc_update c x = (crc_shift ^^ 8) (c XOR uint x)"

definition ChecksumIEEE :: "byte list \<Rightarrow> int" where
  "ChecksumIEEE bs = 0xFFFFFFFF XOR foldl crc_update 0xFFFFFFFF bs"

subsection \<open>Ranges, chunks and nodes\<close>

text \<open>Modelled from the spec: the constant \<open>magic\<close> is declared outside \<open>reader.go\<close>;
  the spec gives the three bytes.\<close>

definition magic :: "byte list" where
  "magic = [0x72, 0xC3, 0x63]"

text \<open>Modelled from the spec: the type \<open>Codec\<close> is declared outside \<open>reader.go\<close>; a node
  stores it in one byte, and \<open>reader.go\<close> only converts that byte and ORs two codecs.\<close>

type_synonym Codec = byte

definition bitwiseSubset :: "Codec \<Rightarrow> Codec \<Rightarrow> bool" where
  "bitwiseSubset outer inner = (outer = (outer OR inner))"

type_synonym Range = "int \<times> int"

definition Range_Empty :: "Range \<Rightarrow> bool" where
  "Range_Empty r = (fst r = snd r)"

record Chunk =
  DRange :: Range
  CPrimary :: Range
  CSecondary :: Range
  CTertiary :: Range
  STag :: byte
  TTag :: byte
  Codec :: Codec

definition zeroChunk :: Chunk where
  "zeroChunk = \<lparr>DRange = (0, 0), CPrimary = (0, 0), CSecondary = (0, 0),
     CTertiary = (0, 0), STag = 0, TTag = 0, Codec = 0\<rparr>"

definition nodeSize :: "byte \<Rightarrow> nat" where
  "nodeSize arity = 16 * unat arity + 16"

type_synonym rNode = "nat \<Rightarrow> byte"

text \<open>
  The slice \<open>b[k:]\<close> passed to \<open>u48LE\<close>, cut to the eight bytes that \<open>u48LE\<close> reads. The
  code takes such a slice at offsets up to \<open>16 * 255 + 8 = 4088\<close> only, where the
  array has eight bytes left, so the read below never panics.
\<close>

definition slice8 :: "rNode \<Rightarrow> nat \<Rightarrow> byte list" where
  "slice8 b k = map b [k ..< k + 8]"

definition u48LE_at :: "rNode \<Rightarrow> nat \<Rightarrow> int" where
  "u48LE_at b k = the (u48LE (slice8 b k))"

definition arity :: "rNode \<Rightarrow> nat" where
  "arity b = unat (b 3)"

definition codec :: "rNode \<Rightarrow> Codec" where
  "codec b = b (8 * unat (b 3) + 7)"

definition cPtrMax :: "rNode \<Rightarrow> int" where
  "cPtrMax b = u48LE_at b (16 * unat (b 3) + 8)"

definition dPtrMax :: "rNode \<Rightarrow> int" where
  "dPtrMax b = u48LE_at b (8 * unat (b 3))"

definition version :: "rNode \<Rightarrow> byte" where
  "version b = b (16 * unat (b 3) + 14)"

definition cLen :: "rNode \<Rightarrow> nat \<Rightarrow> byte" where
  "cLen b i = (let base = 8 * unat (b 3) + 14 in b (8 * i + base))"

definition cOff :: "rNode \<Rightarrow> nat \<Rightarrow> int \<Rightarrow> int" where
  "cOff b i cBias = (let base = 8 * unat (b 3) + 8 in i64 (cBias + u48LE_at b (8 * i + base)))"

definition cOffRange :: "rNode \<Rightarrow> nat \<Rightarrow> int \<Rightarrow> Range" where
  "cOffRange b i cBias =
     (let m = i64 (cBias + cPtrMax b) in
      if i \<ge> arity b then (m, m)
      else
        let cOff' = cOff b i cBias;
            n = i64 (cOff' + uint (cLen b i) * 1024);
            m' = (if cLen b i \<noteq> 0 \<and> m > n then n else m)
        in (cOff', m'))"

definition dOff :: "rNode \<Rightarrow> nat \<Rightarrow> int \<Rightarrow> int" where
  "dOff b i dBias = (if i = 0 then dBias else i64 (dBias + u48LE_at b (8 * i)))"

definition dOffRange :: "rNode \<Rightarrow> nat \<Rightarrow> int \<Rightarrow> Range" where
  "dOffRange b i dBias = (dOff b i dBias, dOff b (i + 1) dBias)"

text \<open>Both operands of the subtraction are in \<open>[0, 2^48)\<close>: it cannot overflow.\<close>

definition dSize :: "rNode \<Rightarrow> nat \<Rightarrow> int" where
  "dSize b i =
     (let x = (if i > 0 then u48LE_at b (8 * i) else 0)
      in u48LE_at b (8 * i + 8) - x)"

definition sTag :: "rNode \<Rightarrow> nat \<Rightarrow> byte" where
  "sTag b i = (let base = 8 * unat (b 3) + 15 in b (8 * i + base))"

definition tTag :: "rNode \<Rightarrow> nat \<Rightarrow> byte" where
  "tTag b i = b (8 * i + 7)"

definition isLeaf :: "rNode \<Rightarrow> nat \<Rightarrow> bool" where
  "isLeaf b i = (b (8 * i + 7) \<noteq> 0xFE)"

text \<open>
  \<open>findChunkContaining\<close>: the linear search, from slot \<open>i\<close> on; \<open>None\<close> is the panic
  \<open>"rac: internal error: could not find containing chunk"\<close> after the loop.
\<close>

function findChunkContaining_from :: "rNode \<Rightarrow> nat \<Rightarrow> int \<Rightarrow> int \<Rightarrow> nat option" where
  "findChunkContaining_from b i dOff' dBias =
     (if i < arity b then
        (if dOff' < dOff b (i + 1) dBias then Some i
         else findChunkContaining_from b (i + 1) dOff' dBias)
      else None)"
  by pat_completeness auto
termination
  by (relation "measure (\<lambda>(b, i, d, dBias). arity b - i)") auto

declare findChunkContaining_from.simps [simp del]

definition findChunkContaining :: "rNode \<Rightarrow> int \<Rightarrow> int \<Rightarrow> nat option" where
  "findChunkContaining b dOff' dBias = findChunkContaining_from b 0 dOff' dBias"

definition chunk :: "rNode \<Rightarrow> nat \<Rightarrow> int \<Rightarrow> int \<Rightarrow> Chunk" where
  "chunk b i cBias dBias =
     (let sTag' = sTag b i; tTag' = tTag b i in
      \<lparr>DRange = dOffRange b i dBias,
       CPrimary = cOffRange b i cBias,
       CSecondary = cOffRange b (unat sTag') cBias,
       CTertiary = cOffRange b (unat tTag') cBias,
       STag = sTag', TTag = tTag', Codec = codec b\<rparr>)"

subsection \<open>Structural validation\<close>

text \<open>The three loops of \<open>valid\<close>; each returns \<open>False\<close> where the code returns early.\<close>

function valid_tags :: "rNode \<Rightarrow> nat \<Rightarrow> nat \<Rightarrow> bool" where
  "valid_tags b n i =
     (if i < n then
        (if b (8 * i + 6) \<noteq> 0 then False
         else if 0xC0 \<le> b (8 * i + 7) \<and> b (8 * i + 7) < 0xFE then False
         else valid_tags b n (i + 1))
      else True)"
  by pat_completeness auto
termination
  by (relation "measure (\<lambda>(b, n, i). n - i)") auto

function valid_dptrs :: "rNode \<Rightarrow> nat \<Rightarrow> nat \<Rightarrow> int \<Rightarrow> bool" where
  "valid_dptrs b n i prev =
     (if i \<le> n then
        (let curr = u48LE_at b (8 * i) in
         if curr < prev then False else valid_dptrs b n (i + 1) curr)
      else True)"
  by pat_completeness auto
termination
  by (relation "measure (\<lambda>(b, n, i, prev). Suc n - i)") auto

function valid_cptrs :: "rNode \<Rightarrow> nat \<Rightarrow> nat \<Rightarrow> int \<Rightarrow> nat \<Rightarrow> bool" where
  "valid_cptrs b n base cMax i =
     (if i < n then
        (if u48LE_at b (8 * i + base) > cMax then False
         else valid_cptrs b n base cMax (i + 1))
      else True)"
  by pat_completeness auto
termination
  by (relation "measure (\<lambda>(b, n, base, cMax, i). n - i)") auto

declare valid_tags.simps [simp del] valid_dptrs.simps [simp del] valid_cptrs.simps [simp del]

text \<open>The checksum of \<open>b[6:size]\<close>, folded: \<open>checksum ^= checksum >> 16\<close>.\<close>

definition folded_checksum :: "rNode \<Rightarrow> nat \<Rightarrow> int" where
  "folded_checksum b n =
     (let checksum = ChecksumIEEE (map b [6 ..< n])
      in checksum XOR (checksum div 2 ^ 16))"

definition valid :: "rNode \<Rightarrow> bool" where
  "valid b =
     (if b 0 \<noteq> magic ! 0 \<or> b 1 \<noteq> magic ! 1 \<or> b 2 \<noteq> magic ! 2 \<or> b 3 = 0 then False
      else
        let n = unat (b 3); sz = 16 * n + 16 in
        if b 3 \<noteq> b (sz - 1) then False
        else if \<not> valid_tags b n 0 then False
        else if b (8 * n + 6) \<noteq> 0 then False
        else if b (8 * n + 7) = 0 then False
        else if \<not> valid_dptrs b n 2 (u48LE_at b (8 * 1)) then False
        else if \<not> valid_cptrs b n (8 * n + 8) (u48LE_at b (sz - 8)) 0 then False
        else if b (16 * n + 14) = 0 then False
        else
          let checksum = folded_checksum b sz in
          if uint (b 4) \<noteq> checksum mod 2 ^ 8 \<or> uint (b 5) \<noteq> (checksum div 2 ^ 8) mod 2 ^ 8
          then False
          else True)"

subsection \<open>Errors and the byte source\<close>

datatype error =
    ErrInvalidIndexNode \<comment> \<open>\<open>errInvalidIndexNode\<close>, "rac: invalid index node"\<close>
  | ErrInvalidReadSeeker \<comment> \<open>"rac: invalid ReadSeeker"\<close>
  | ErrInvalidCompressedSize \<comment> \<open>"rac: invalid CompressedSize"\<close>
  | ErrUnsupportedVersion \<comment> \<open>"rac: unsupported RAC file version"\<close>
  | ErrMissingMagic \<comment> \<open>"rac: invalid input: missing magic bytes at the start of file"\<close>
  | ErrMissingRootNode \<comment> \<open>"rac: invalid input: missing index root node"\<close>
  | ErrInconsistentArity \<comment> \<open>"rac: internal error: inconsistent arity"\<close>
  | ErrNegativeSeek \<comment> \<open>"rac: seek: negative position"\<close>
  | EOF \<comment> \<open>\<open>io.EOF\<close>\<close>
  | ErrUnexpectedEOF \<comment> \<open>\<open>io.ErrUnexpectedEOF\<close>\<close>
  | ErrSeekOffset \<comment> \<open>the byte source refuses to seek to a negative offset\<close>

datatype 'a outcome = Return 'a | Panic

text \<open>
  The \<open>io.ReadSeeker\<close> is an interface value supplied by the caller. It is modelled as
  an immutable in-memory file: \<open>Seek\<close> fails on a negative offset, and \<open>io.ReadFull\<close>
  fills the buffer, or copies what is left and fails with \<open>io.EOF\<close> (nothing left) or
  \<open>io.ErrUnexpectedEOF\<close>. The \<open>io.ReaderAt\<close> branch of \<open>readAt\<close> is guarded by
  \<open>&& false\<close> and never runs. \<open>readAt f p n offset\<close> reads into \<open>p[:n]\<close>.
\<close>

definition readAt :: "byte list \<Rightarrow> rNode \<Rightarrow> nat \<Rightarrow> int \<Rightarrow> error option \<times> rNode" where
  "readAt f p n offset =
     (if offset < 0 then (Some ErrSeekOffset, p)
      else
        let rest = drop (nat offset) f in
        if n \<le> length rest then (None, \<lambda>j. if j < n then rest ! j else p j)
        else if rest = [] then (Some EOF, p)
        else (Some ErrUnexpectedEOF, \<lambda>j. if j < length rest then rest ! j else p j))"

subsection \<open>The reader\<close>

record Reader =
  ReadSeeker :: "byte list option" \<comment> \<open>\<open>None\<close> is the nil interface value\<close>
  CompressedSize :: int
  initialized :: bool
  rootNodeArity :: byte
  needToResolveSeekPosition :: bool
  err :: "error option"
  decompressedSize :: int
  rootNodeCOffset :: int
  seekPosition :: int
  nextChunk :: nat \<comment> \<open>an \<open>int32\<close> holding a slot number, \<open>0\<close> .. \<open>255\<close>\<close>
  currNodeCBias :: int
  currNodeDBias :: int
  currNode :: rNode

text \<open>The zero value of the struct, with the two exported fields set by the caller.\<close>

definition newReader :: "byte list \<Rightarrow> int \<Rightarrow> Reader" where
  "newReader f n =
     \<lparr>ReadSeeker = Some f, CompressedSize = n, initialized = False, rootNodeArity = 0,
      needToResolveSeekPosition = False, err = None, decompressedSize = 0,
      rootNodeCOffset = 0, seekPosition = 0, nextChunk = 0, currNodeCBias = 0,
      currNodeDBias = 0, currNode = (\<lambda>j. 0)\<rparr>"

text \<open>
  The bytes behind \<open>r.ReadSeeker\<close>. Every read happens after \<open>checkParameters\<close> has
  refused a nil \<open>ReadSeeker\<close>, so the nil case is never read from.
\<close>

definition contents :: "Reader \<Rightarrow> byte list" where
  "contents r = (case ReadSeeker r of Some f \<Rightarrow> f | None \<Rightarrow> [])"

definition checkParameters :: "Reader \<Rightarrow> error option \<times> Reader" where
  "checkParameters r =
     (if ReadSeeker r = None
      then (Some ErrInvalidReadSeeker, r\<lparr>err := Some ErrInvalidReadSeeker\<rparr>)
      else if CompressedSize r < 32
      then (Some ErrInvalidCompressedSize, r\<lparr>err := Some ErrInvalidCompressedSize\<rparr>)
      else (None, r))"

definition load :: "Reader \<Rightarrow> int \<Rightarrow> byte \<Rightarrow> error option \<times> Reader" where
  "load r cOffset arity' =
     (if arity' = 0
      then (Some ErrInconsistentArity, r\<lparr>err := Some ErrInconsistentArity\<rparr>)
      else
        case readAt (contents r) (currNode r) (nodeSize arity') cOffset of
          (Some e, buf) \<Rightarrow> (Some e, r\<lparr>currNode := buf, err := Some e\<rparr>)
        | (None, buf) \<Rightarrow> (None, r\<lparr>currNode := buf\<rparr>))"

definition tryRootNode :: "Reader \<Rightarrow> byte \<Rightarrow> bool \<Rightarrow> (bool \<times> error option) \<times> Reader" where
  "tryRootNode r arity' fromEnd =
     (if arity' = 0 then ((False, None), r)
      else
        let sz = int (nodeSize arity') in
        if CompressedSize r < sz then ((False, None), r)
        else
          let cOffset = (if fromEnd then CompressedSize r - sz else 0) in
          case load r cOffset arity' of
            (Some e, r1) \<Rightarrow> ((False, Some e), r1)
          | (None, r1) \<Rightarrow>
              if \<not> valid (currNode r1) then ((False, None), r1)
              else if cPtrMax (currNode r1) \<noteq> CompressedSize r1 then ((False, None), r1)
              else ((True, None),
                    r1\<lparr>needToResolveSeekPosition := True,
                       rootNodeCOffset := cOffset,
                       rootNodeArity := arity',
                       decompressedSize := dPtrMax (currNode r1)\<rparr>))"

text \<open>The last \<open>return\<close> of \<open>findRootNode\<close> hands back a fresh error and leaves \<open>r.err\<close>
  as it is; every other error exit assigns \<open>r.err\<close> first.\<close>

definition findRootNode :: "Reader \<Rightarrow> error option \<times> Reader" where
  "findRootNode r =
     (case readAt (contents r) (currNode r) 4 0 of
        (Some e, buf) \<Rightarrow> (Some e, r\<lparr>currNode := buf, err := Some e\<rparr>)
      | (None, buf) \<Rightarrow>
          (let r1 = r\<lparr>currNode := buf\<rparr> in
           if currNode r1 0 \<noteq> magic ! 0 \<or> currNode r1 1 \<noteq> magic ! 1 \<or>
              currNode r1 2 \<noteq> magic ! 2
           then (Some ErrMissingMagic, r1\<lparr>err := Some ErrMissingMagic\<rparr>)
           else
             (case tryRootNode r1 (currNode r1 3) False of
                ((found, Some e), r2) \<Rightarrow> (Some e, r2)
              | ((True, None), r2) \<Rightarrow> (None, r2)
              | ((False, None), r2) \<Rightarrow>
                  (case readAt (contents r2) (currNode r2) 1 (CompressedSize r2 - 1) of
                     (Some e, buf2) \<Rightarrow> (Some e, r2\<lparr>currNode := buf2, err := Some e\<rparr>)
                   | (None, buf2) \<Rightarrow>
                       (let r3 = r2\<lparr>currNode := buf2\<rparr> in
                        (case tryRootNode r3 (currNode r3 0) True of
                           ((found, Some e), r4) \<Rightarrow> (Some e, r4)
                         | ((True, None), r4) \<Rightarrow> (None, r4)
                         | ((False, None), r4) \<Rightarrow> (Some ErrMissingRootNode, r4)))))))"

definition initialize :: "Reader \<Rightarrow> error option \<times> Reader" where
  "initialize r =
     (if err r \<noteq> None then (err r, r)
      else if initialized r then (None, r)
      else
        let r0 = r\<lparr>initialized := True\<rparr> in
        case checkParameters r0 of
          (Some e, r1) \<Rightarrow> (Some e, r1)
        | (None, r1) \<Rightarrow>
            (case findRootNode r1 of
               (Some e, r2) \<Rightarrow> (Some e, r2)
             | (None, r2) \<Rightarrow>
                 if version (currNode r2) \<noteq> 1
                 then (Some ErrUnsupportedVersion, r2\<lparr>err := Some ErrUnsupportedVersion\<rparr>)
                 else (None, r2)))"

definition loadAndValidate ::
  "Reader \<Rightarrow> int \<Rightarrow> Codec \<Rightarrow> byte \<Rightarrow> int \<Rightarrow> int \<Rightarrow> int \<Rightarrow> error option \<times> Reader" where
  "loadAndValidate r cOffset parentCodec parentVersion parentCOffMax childCBias childDSize =
     (if cOffset < 0 \<or> CompressedSize r - 4 < cOffset
      then (Some ErrInvalidIndexNode, r\<lparr>err := Some ErrInvalidIndexNode\<rparr>)
      else
        (case readAt (contents r) (currNode r) 4 cOffset of
           (Some e, buf) \<Rightarrow> (Some e, r\<lparr>currNode := buf, err := Some e\<rparr>)
         | (None, buf) \<Rightarrow>
             (let r1 = r\<lparr>currNode := buf\<rparr>; arity' = currNode r1 3 in
              if arity' = 0
              then (Some ErrInvalidIndexNode, r1\<lparr>err := Some ErrInvalidIndexNode\<rparr>)
              else
                (let sz = int (nodeSize arity') in
                 if CompressedSize r1 < sz \<or> CompressedSize r1 - sz < cOffset
                 then (Some ErrInvalidIndexNode, r1\<lparr>err := Some ErrInvalidIndexNode\<rparr>)
                 else
                   (case load r1 cOffset arity' of
                      (Some e, r2) \<Rightarrow> (Some e, r2)
                    | (None, r2) \<Rightarrow>
                        if \<not> valid (currNode r2)
                        then (Some ErrInvalidIndexNode,
                              r2\<lparr>err := Some ErrInvalidIndexNode\<rparr>)
                        else
                          (let childVersion = version (currNode r2) in
                           if \<not> bitwiseSubset parentCodec (codec (currNode r2)) \<or>
                              parentVersion < childVersion \<or>
                              parentCOffMax < i64 (childCBias + cPtrMax (currNode r2)) \<or>
                              childDSize \<noteq> dPtrMax (currNode r2)
                           then (Some ErrInvalidIndexNode,
                                 r2\<lparr>err := Some ErrInvalidIndexNode\<rparr>)
                           else (None, r2)))))))"

definition DecompressedSize :: "Reader \<Rightarrow> (int \<times> error option) \<times> Reader" where
  "DecompressedSize r =
     (case initialize r of
        (Some e, r1) \<Rightarrow> ((0, Some e), r1)
      | (None, r1) \<Rightarrow> ((decompressedSize r1, None), r1))"

definition SeekToChunkContaining :: "Reader \<Rightarrow> int \<Rightarrow> error option \<times> Reader" where
  "SeekToChunkContaining r dSpaceOffset =
     (case initialize r of
        (Some e, r1) \<Rightarrow> (Some e, r1)
      | (None, r1) \<Rightarrow>
          if dSpaceOffset < 0
          then (Some ErrNegativeSeek, r1\<lparr>err := Some ErrNegativeSeek\<rparr>)
          else (None, r1\<lparr>needToResolveSeekPosition := True, seekPosition := dSpaceOffset\<rparr>))"

subsection \<open>Descent and iteration\<close>

text \<open>
  The \<open>for\<close> loop of \<open>resolveSeekPosition\<close>, with its local variables \<open>cBias\<close> and
  \<open>dBias\<close> as arguments. Nothing in the loop bounds the number of iterations, so it is
  a partial function: \<open>None\<close> means that it runs forever.
\<close>

partial_function (option) resolve_walk ::
  "Reader \<Rightarrow> int \<Rightarrow> int \<Rightarrow> (error option \<times> Reader) outcome option" where
  "resolve_walk r cBias dBias =
     (case findChunkContaining (currNode r) (seekPosition r) dBias of
        None \<Rightarrow> Some Panic
      | Some i \<Rightarrow>
          if isLeaf (currNode r) i
          then Some (Return (None,
                 r\<lparr>nextChunk := i, currNodeCBias := cBias, currNodeDBias := dBias\<rparr>))
          else
            (let parentCodec = codec (currNode r);
                 parentVersion = version (currNode r);
                 parentCOffMax = i64 (cBias + cPtrMax (currNode r));
                 childCOffset = cOff (currNode r) i cBias;
                 childCBias =
                   (if unat (sTag (currNode r) i) < arity (currNode r)
                    then cOff (currNode r) (unat (sTag (currNode r) i)) cBias
                    else cBias);
                 childDBias = dOff (currNode r) i dBias;
                 childDSize = dSize (currNode r) i
             in
               (case loadAndValidate r childCOffset parentCodec parentVersion parentCOffMax
                       childCBias childDSize of
                  (Some e, r1) \<Rightarrow> Some (Return (Some e, r1))
                | (None, r1) \<Rightarrow> resolve_walk r1 childCBias childDBias)))"

declare resolve_walk.simps [code]

definition resolveSeekPosition :: "Reader \<Rightarrow> (error option \<times> Reader) outcome option" where
  "resolveSeekPosition r =
     (case load r (rootNodeCOffset r) (rootNodeArity r) of
        (Some e, r1) \<Rightarrow> Some (Return (Some e, r1))
      | (None, r1) \<Rightarrow> resolve_walk r1 0 0)"

text \<open>
  The inner loop of \<open>NextChunk\<close>: \<open>Some c\<close> when it returns the chunk \<open>c\<close>, \<open>None\<close> when
  the node is exhausted.
\<close>

function chunk_loop :: "Reader \<Rightarrow> Chunk option \<times> Reader" where
  "chunk_loop r =
     (if nextChunk r < arity (currNode r) then
        (let c = chunk (currNode r) (nextChunk r) (currNodeCBias r) (currNodeDBias r);
             r1 = r\<lparr>nextChunk := nextChunk r + 1, seekPosition := snd (DRange c)\<rparr>
         in if \<not> Range_Empty (DRange c) then (Some c, r1) else chunk_loop r1)
      else (None, r))"
  by pat_completeness auto
termination
  by (relation "measure (\<lambda>r. arity (currNode r) - nextChunk r)") auto

declare chunk_loop.simps [simp del]

text \<open>The outer \<open>for\<close> loop of \<open>NextChunk\<close>.\<close>

partial_function (option) NextChunk_loop ::
  "Reader \<Rightarrow> ((Chunk \<times> error option) \<times> Reader) outcome option" where
  "NextChunk_loop r =
     (case (if needToResolveSeekPosition r then
              (if seekPosition r \<ge> decompressedSize r then Some (Return (Some EOF, r))
               else resolveSeekPosition (r\<lparr>needToResolveSeekPosition := False\<rparr>))
            else Some (Return (None, r))) of
        None \<Rightarrow> None
      | Some Panic \<Rightarrow> Some Panic
      | Some (Return (Some e, r1)) \<Rightarrow> Some (Return ((zeroChunk, Some e), r1))
      | Some (Return (None, r1)) \<Rightarrow>
          (case chunk_loop r1 of
             (Some c, r2) \<Rightarrow> Some (Return ((c, None), r2))
           | (None, r2) \<Rightarrow> NextChunk_loop (r2\<lparr>needToResolveSeekPosition := True\<rparr>)))"

declare NextChunk_loop.simps [code]

definition NextChunk :: "Reader \<Rightarrow> ((Chunk \<times> error option) \<times> Reader) outcome option" where
  "NextChunk r =
     (case initialize r of
        (Some e, r1) \<Rightarrow> Some (Return ((zeroChunk, Some e), r1))
      | (None, r1) \<Rightarrow> NextChunk_loop r1)"

section \<open>Notions used in the statements\<close>

subsection \<open>The node format in the spec's words\<close>

text \<open>Entry \<open>i\<close> of the DPtr table (entry \<open>0\<close> is the implicit zero) and of the CPtr table.\<close>

definition DPtr :: "rNode \<Rightarrow> nat \<Rightarrow> int" where
  "DPtr b i = (if i = 0 then 0 else u48LE_at b (8 * i))"

definition CPtr :: "rNode \<Rightarrow> nat \<Rightarrow> int" where
  "CPtr b i = u48LE_at b (8 * i + (8 * arity b + 8))"

text \<open>The stored 16-bit checksum, and the CRC-32 of bytes \<open>[6, 16A + 16)\<close> folded to 16 bits.\<close>

definition stored_checksum :: "rNode \<Rightarrow> int" where
  "stored_checksum b = uint (b 4) + 2 ^ 8 * uint (b 5)"

definition crc16 :: "rNode \<Rightarrow> int" where
  "crc16 b =
     (let c = ChecksumIEEE (map b [6 ..< 16 * arity b + 16])
      in (c XOR (c div 2 ^ 16)) mod 2 ^ 16)"

text \<open>The structural invariants of a node, as the spec lists them.\<close>

definition node_invariants :: "rNode \<Rightarrow> bool" where
  "node_invariants b \<longleftrightarrow>
     b 0 = 0x72 \<and> b 1 = 0xC3 \<and> b 2 = 0x63 \<and>
     b 3 \<noteq> 0 \<and> b (16 * arity b + 15) = b 3 \<and>
     (\<forall>i < arity b. b (8 * i + 6) = 0 \<and> \<not> (0xC0 \<le> tTag b i \<and> tTag b i < 0xFE)) \<and>
     b (8 * arity b + 6) = 0 \<and>
     codec b \<noteq> 0 \<and> version b \<noteq> 0 \<and>
     (\<forall>i < arity b. DPtr b i \<le> DPtr b (i + 1)) \<and>
     (\<forall>i < arity b. CPtr b i \<le> cPtrMax b) \<and>
     stored_checksum b = crc16 b"

subsection \<open>Example containers\<close>

text \<open>The node that a container holds at offset \<open>off\<close>, as a buffer.\<close>

definition node_at :: "byte list \<Rightarrow> nat \<Rightarrow> rNode" where
  "node_at f off = (\<lambda>j. if off + j < length f then f ! (off + j) else 0)"

text \<open>
  A minimal flat container: one root node of arity 1 at the head, whose only slot is a
  leaf covering \<open>[0, 100)\<close> of DSpace; \<open>cPtrMax = 32\<close> is the length of the container.
\<close>

definition flat_file :: "byte list" where
  "flat_file =
     [0x72, 0xC3, 0x63, 0x01, 0xCA, 0x77, 0x00, 0xFF,  0x64, 0x00, 0x00, 0x00, 0x00, 0x00, 0x00, 0x01,
      0x00, 0x00, 0x00, 0x00, 0x00, 0x00, 0x00, 0xFF,  0x20, 0x00, 0x00, 0x00, 0x00, 0x00, 0x01, 0x01]"

subsection \<open>Reachable reader states\<close>

text \<open>
  The states of a \<open>Reader\<close> that a caller can produce: the zero value with the two
  exported fields set, followed by any sequence of calls of the three public methods
  (a call that panics or does not return leaves no state to go on with).
\<close>

inductive reachable :: "Reader \<Rightarrow> bool" where
  fresh: "reachable (newReader f n)"
| after_DecompressedSize: "reachable r \<Longrightarrow> reachable (snd (DecompressedSize r))"
| after_SeekToChunkContaining: "reachable r \<Longrightarrow> reachable (snd (SeekToChunkContaining r d))"
| after_NextChunk: "reachable r \<Longrightarrow> NextChunk r = Some (Return (x, r')) \<Longrightarrow> reachable r'"

text \<open>The fields that only initialization writes.\<close>

definition frame :: "Reader \<Rightarrow> Reader \<Rightarrow> bool" where
  "frame r r' \<longleftrightarrow>
     ReadSeeker r' = ReadSeeker r \<and> CompressedSize r' = CompressedSize r \<and>
     initialized r' = initialized r \<and> rootNodeArity r' = rootNodeArity r \<and>
     decompressedSize r' = decompressedSize r \<and> rootNodeCOffset r' = rootNodeCOffset r"

subsection \<open>The descent as a relation\<close>

text \<open>
  One iteration of the loop of \<open>resolveSeekPosition\<close> that does not return: the CSpace
  bias of the child behind slot \<open>i\<close>, and the call of \<open>loadAndValidate\<close> for that child.
\<close>

definition childCBias_of :: "rNode \<Rightarrow> nat \<Rightarrow> int \<Rightarrow> int" where
  "childCBias_of b i cBias =
     (if unat (sTag b i) < arity b then cOff b (unat (sTag b i)) cBias else cBias)"

definition descend :: "Reader \<Rightarrow> nat \<Rightarrow> int \<Rightarrow> error option \<times> Reader" where
  "descend r i cBias =
     loadAndValidate r (cOff (currNode r) i cBias) (codec (currNode r)) (version (currNode r))
       (i64 (cBias + cPtrMax (currNode r))) (childCBias_of (currNode r) i cBias)
       (dSize (currNode r) i)"

text \<open>
  \<open>walk r cBias dBias y\<close>: the loop, entered with the reader \<open>r\<close> and the biases
  \<open>cBias\<close> and \<open>dBias\<close>, ends with the outcome \<open>y\<close>. It is the graph of \<open>resolve_walk\<close>
  (lemma \<open>resolve_walk_iff_walk\<close>).
\<close>

inductive walk :: "Reader \<Rightarrow> int \<Rightarrow> int \<Rightarrow> (error option \<times> Reader) outcome \<Rightarrow> bool" where
  panic: "findChunkContaining (currNode r) (seekPosition r) dBias = None \<Longrightarrow>
          walk r cBias dBias Panic"
| leaf: "findChunkContaining (currNode r) (seekPosition r) dBias = Some i \<Longrightarrow>
         isLeaf (currNode r) i \<Longrightarrow>
         walk r cBias dBias
           (Return (None, r\<lparr>nextChunk := i, currNodeCBias := cBias, currNodeDBias := dBias\<rparr>))"
| fail: "findChunkContaining (currNode r) (seekPosition r) dBias = Some i \<Longrightarrow>
         \<not> isLeaf (currNode r) i \<Longrightarrow> descend r i cBias = (Some e, r1) \<Longrightarrow>
         walk r cBias dBias (Return (Some e, r1))"
| branch: "findChunkContaining (currNode r) (seekPosition r) dBias = Some i \<Longrightarrow>
           \<not> isLeaf (currNode r) i \<Longrightarrow> descend r i cBias = (None, r1) \<Longrightarrow>
           walk r1 (childCBias_of (currNode r) i cBias) (dOff (currNode r) i dBias) y \<Longrightarrow>
           walk r cBias dBias y"

text \<open>
  A container of 32 bytes that starts with the magic bytes and holds no root: the
  arity byte at offset 3 and the last byte are both zero.
\<close>

definition noroot_file :: "byte list" where
  "noroot_file =
     [0x72, 0xC3, 0x63, 0x00, 0x00, 0x00, 0x00, 0x00,  0x00, 0x00, 0x00, 0x00, 0x00, 0x00, 0x00, 0x00,
      0x00, 0x00, 0x00, 0x00, 0x00, 0x00, 0x00, 0x00,  0x00, 0x00, 0x00, 0x00, 0x00, 0x00, 0x00, 0x00]"

subsection \<open>Buffers that hold the same node\<close>

text \<open>
  A load overwrites the first \<open>nodeSize(arity)\<close> bytes of the buffer and leaves the rest
  as it was. Two buffers hold the same node when they agree on those bytes.
\<close>

definition agree :: "nat \<Rightarrow> rNode \<Rightarrow> rNode \<Rightarrow> bool" where
  "agree n b b' \<longleftrightarrow> (\<forall>j<n. b j = b' j)"

definition same_node :: "rNode \<Rightarrow> rNode \<Rightarrow> bool" where
  "same_node b b' \<longleftrightarrow> agree (16 * unat (b 3) + 16) b b'"

subsection \<open>What a successful \<open>loadAndValidate\<close> means for the container\<close>

text \<open>
  The conditions of \<open>loadAndValidate\<close>, read off the container \<open>f\<close> (with the
  \<open>CompressedSize\<close> \<open>cs\<close> that the caller declared) instead of the buffer.
\<close>

definition child_ok ::
  "byte list \<Rightarrow> int \<Rightarrow> int \<Rightarrow> Codec \<Rightarrow> byte \<Rightarrow> int \<Rightarrow> int \<Rightarrow> int \<Rightarrow> bool" where
  "child_ok f cs off pc pv pm cb ds \<longleftrightarrow>
     0 \<le> off \<and> off \<le> cs - 4 \<and> nat off + 4 \<le> length f \<and>
     (let b = node_at f (nat off); sz = int (nodeSize (b 3)) in
        b 3 \<noteq> 0 \<and> sz \<le> cs \<and> off \<le> cs - sz \<and> nat off + nodeSize (b 3) \<le> length f \<and>
        valid b \<and> bitwiseSubset pc (codec b) \<and> version b \<le> pv \<and>
        i64 (cb + cPtrMax b) \<le> pm \<and> ds = dPtrMax b)"

subsection \<open>Invariants of the descent\<close>

text \<open>
  Two readers see the same node of the same container: what the loop of
  \<open>resolveSeekPosition\<close> does next depends on nothing else, but for \<open>seekPosition\<close>.
\<close>

definition same_view :: "Reader \<Rightarrow> Reader \<Rightarrow> bool" where
  "same_view r r' \<longleftrightarrow>
     contents r' = contents r \<and> CompressedSize r' = CompressedSize r \<and>
     same_node (currNode r) (currNode r')"

text \<open>
  A node accepted by \<open>valid\<close> whose DSpace range \<open>[dBias, dBias + dPtrMax)\<close> lies within
  \<open>[0, D)\<close>, for a decompressed size \<open>D\<close> below \<open>2^48\<close>.
\<close>

definition node_ok :: "int \<Rightarrow> rNode \<Rightarrow> int \<Rightarrow> bool" where
  "node_ok D b dBias \<longleftrightarrow> valid b \<and> 0 \<le> dBias \<and> dBias + dPtrMax b \<le> D \<and> D < 2 ^ 48"


text \<open>
  A container whose root (arity 1, at the head) has one branch slot, with the child
  pointer \<open>CPtr[0] = 0\<close>: the root is its own child, and the slot spans the whole node.
\<close>

definition loop_file :: "byte list" where
  "loop_file =
     [0x72, 0xC3, 0x63, 0x01, 0x4F, 0x42, 0x00, 0xFE,  0x64, 0x00, 0x00, 0x00, 0x00, 0x00, 0x00, 0x01,
      0x00, 0x00, 0x00, 0x00, 0x00, 0x00, 0x00, 0xFF,  0x20, 0x00, 0x00, 0x00, 0x00, 0x00, 0x01, 0x01]"

text \<open>
  The 32-byte root node of the two containers below: arity 1, one leaf slot covering
  \<open>[0, 100)\<close> of DSpace, \<open>cPtrMax = 36\<close>.
\<close>

definition tail_node :: "byte list" where
  "tail_node =
     [0x72, 0xC3, 0x63, 0x01, 0x7A, 0xFD, 0x00, 0xFF,  0x64, 0x00, 0x00, 0x00, 0x00, 0x00, 0x00, 0x01,
      0x00, 0x00, 0x00, 0x00, 0x00, 0x00, 0x00, 0xFF,  0x24, 0x00, 0x00, 0x00, 0x00, 0x00, 0x01, 0x01]"

text \<open>36 bytes: four zero bytes, then the root node at the tail.\<close>

definition tail_only_file :: "byte list" where
  "tail_only_file = [0x00, 0x00, 0x00, 0x00] @ tail_node"

text \<open>36 bytes: the magic bytes and a zero arity byte, then the root node at the tail.\<close>

definition tail_root_file :: "byte list" where
  "tail_root_file = [0x72, 0xC3, 0x63, 0x00] @ tail_node"

subsection \<open>Reading the result of a call\<close>

text \<open>What a call returned, if it returned: \<open>None\<close> when it panicked or ran forever.\<close>

definition result_of :: "('a \<times> Reader) outcome option \<Rightarrow> 'a option" where
  "result_of x = (case x of Some (Return (a, r)) \<Rightarrow> Some a | _ \<Rightarrow> None)"

text \<open>
  The caller's loop "call \<open>NextChunk\<close> until it returns an error": the chunks returned,
  and the error that ended the loop (\<open>io.EOF\<close> at the end of the stream).
\<close>

partial_function (option) read_all :: "Reader \<Rightarrow> (Chunk list \<times> error) outcome option" where
  "read_all r =
     (case NextChunk r of
        None \<Rightarrow> None
      | Some Panic \<Rightarrow> Some Panic
      | Some (Return ((c, Some e), r')) \<Rightarrow> Some (Return ([], e))
      | Some (Return ((c, None), r')) \<Rightarrow>
          Option.bind (read_all r')
            (\<lambda>y. Some (case y of Panic \<Rightarrow> Panic | Return (cs, e) \<Rightarrow> Return (c # cs, e))))"

declare read_all.simps [code]

text \<open>
  \<open>tiles cs lo hi\<close>: the DRanges of the chunks \<open>cs\<close>, in this order, are non-empty, each
  starts where the one before ends, the first starts at \<open>lo\<close> and the last ends at \<open>hi\<close>.
\<close>

fun tiles :: "Chunk list \<Rightarrow> int \<Rightarrow> int \<Rightarrow> bool" where
  "tiles [] lo hi \<longleftrightarrow> lo = hi"
| "tiles (c # cs) lo hi \<longleftrightarrow>
     fst (DRange c) = lo \<and> lo < snd (DRange c) \<and> tiles cs (snd (DRange c)) hi"

subsection \<open>Containers on which the descent shrinks\<close>

text \<open>Every branch slot of the node covers less of DSpace than the node itself.\<close>

definition shrinking :: "rNode \<Rightarrow> bool" where
  "shrinking b \<longleftrightarrow> (\<forall>i < arity b. \<not> isLeaf b i \<longrightarrow> dSize b i < dPtrMax b)"

text \<open>Every node of the container that \<open>valid\<close> accepts is shrinking.\<close>

definition strict_file :: "byte list \<Rightarrow> bool" where
  "strict_file f \<longleftrightarrow>
     (\<forall>off. off + 32 \<le> length f \<longrightarrow> valid (node_at f off) \<longrightarrow> shrinking (node_at f off))"

text \<open>The reader of the container \<open>f\<close> after a first call of \<open>DecompressedSize\<close>.\<close>

definition opened :: "byte list \<Rightarrow> int \<Rightarrow> Reader" where
  "opened f n = snd (DecompressedSize (newReader f n))"

subsection \<open>The index path to a DSpace position\<close>


text \<open>
  A two-level container of 112 bytes. The root (arity 2, at the head) has two branch
  slots, covering \<open>[0, 500)\<close> and \<open>[500, 900)\<close> of DSpace; their child nodes, at the offsets
  48 and 80, have one leaf slot each.
\<close>

definition tree_file :: "byte list" where
  "tree_file =
     [0x72, 0xC3, 0x63, 0x02, 0x94, 0x0B, 0x00, 0xFE,  0xF4, 0x01, 0x00, 0x00, 0x00, 0x00, 0x00, 0xFE,
      0x84, 0x03, 0x00, 0x00, 0x00, 0x00, 0x00, 0x01,  0x30, 0x00, 0x00, 0x00, 0x00, 0x00, 0x00, 0xFF,
      0x50, 0x00, 0x00, 0x00, 0x00, 0x00, 0x00, 0xFF,  0x70, 0x00, 0x00, 0x00, 0x00, 0x00, 0x01, 0x02,
      0x72, 0xC3, 0x63, 0x01, 0x77, 0x74, 0x00, 0xFF,  0xF4, 0x01, 0x00, 0x00, 0x00, 0x00, 0x00, 0x01,
      0x70, 0x00, 0x00, 0x00, 0x00, 0x00, 0x00, 0xFF,  0x70, 0x00, 0x00, 0x00, 0x00, 0x00, 0x01, 0x01,
      0x72, 0xC3, 0x63, 0x01, 0xEB, 0x5F, 0x00, 0xFF,  0x90, 0x01, 0x00, 0x00, 0x00, 0x00, 0x00, 0x01,
      0x70, 0x00, 0x00, 0x00, 0x00, 0x00, 0x00, 0xFF,  0x70, 0x00, 0x00, 0x00, 0x00, 0x00, 0x01, 0x01]"

subsection \<open>The descent steps that a container allows\<close>

text \<open>
  \<open>descent_step f cs\<close> relates a child to its parent: the pair \<open>(off', cBias')\<close> to the pair
  \<open>(off, cBias)\<close> when the node of \<open>f\<close> at \<open>off\<close>, entered with the bias \<open>cBias\<close>, is accepted
  by \<open>valid\<close> and has a branch slot whose child, at \<open>off'\<close> and with the bias \<open>cBias'\<close>, passes
  the checks of \<open>loadAndValidate\<close>. These are the steps that the loop of
  \<open>resolveSeekPosition\<close> can take below the root. The relation is well-founded when the
  index nodes of the container form no cycle.
\<close>

definition descent_step :: "byte list \<Rightarrow> int \<Rightarrow> ((int \<times> int) \<times> (int \<times> int)) set" where
  "descent_step f cs =
     {((off', cBias'), (off, cBias)).
        let b = node_at f (nat off) in
          valid b \<and>
          (\<exists>i < arity b. \<not> isLeaf b i \<and> off' = cOff b i cBias \<and>
             cBias' = childCBias_of b i cBias \<and>
             child_ok f cs off' (codec b) (version b) (i64 (cBias + cPtrMax b))
               cBias' (dSize b i))}"

subsection \<open>The two placements of the root\<close>

text \<open>
  The head placement yields a root: the arity byte at offset 3 is not zero, a node of
  that arity fits in the container, it is accepted by \<open>valid\<close> (which includes the magic
  bytes) and its \<open>cPtrMax\<close> is the length of the container.
\<close>

definition head_root :: "byte list \<Rightarrow> bool" where
  "head_root f \<longleftrightarrow>
     f ! 3 \<noteq> 0 \<and> nodeSize (f ! 3) \<le> length f \<and>
     valid (node_at f 0) \<and> cPtrMax (node_at f 0) = int (length f)"

text \<open>Where a node whose arity is the last byte of the container starts, if it ends there.\<close>

definition tail_offset :: "byte list \<Rightarrow> nat" where
  "tail_offset f = length f - nodeSize (last f)"

text \<open>
  The container ends with a valid tail-placed root: its last byte is the arity of the
  node that occupies the final \<open>16 * arity + 16\<close> bytes, that node is accepted by \<open>valid\<close>
  and its \<open>cPtrMax\<close> is the length of the container.
\<close>

definition tail_root :: "byte list \<Rightarrow> bool" where
  "tail_root f \<longleftrightarrow>
     f \<noteq> [] \<and> last f \<noteq> 0 \<and> nodeSize (last f) \<le> length f \<and>
     node_at f (tail_offset f) 3 = last f \<and>
     valid (node_at f (tail_offset f)) \<and> cPtrMax (node_at f (tail_offset f)) = int (length f)"

section \<open>Machine integers and the loops of the node codec\<close>

lemma mask48: "(0xFFFFFFFFFFFF :: 64 word) = mask 48"
  by (simp add: mask_eq_exp_minus_1)

lemma sint_and_mask48:
  "0 \<le> sint ((w :: 64 word) AND 0xFFFFFFFFFFFF) \<and> sint (w AND 0xFFFFFFFFFFFF) < 2 ^ 48"
proof -
  let ?x = "w AND mask 48"
  have u: "uint ?x < 2 ^ 48"
    by (rule and_mask_lt_2p)
  have lo: "- (2 ^ 63) \<le> uint ?x"
    by (rule order_trans [of _ 0]) simp_all
  have hi: "uint ?x < 2 ^ 63"
    using u by simp
  have "signed_take_bit 63 (uint ?x) = uint ?x"
    using lo hi by (rule signed_take_bit_int_eq_self)
  then have "sint ?x = uint ?x"
    by (simp add: sint_uint)
  then show ?thesis using u by (simp add: mask48)
qed

lemma length_slice8: "length (slice8 b k) = 8"
  by (simp add: slice8_def)

lemma slice8_nth: "j < 8 \<Longrightarrow> slice8 b k ! j = b (k + j)"
  by (simp add: slice8_def)

lemma u48LE_at_bounds: "0 \<le> u48LE_at b k \<and> u48LE_at b k < 2 ^ 48"
  using sint_and_mask48 [of "le64 (slice8 b k)"]
  by (simp add: u48LE_at_def u48LE_def length_slice8)

lemma u48LE_at_nonneg: "0 \<le> u48LE_at b k"
  using u48LE_at_bounds [of b k] by simp

lemma u48LE_at_less: "u48LE_at b k < 281474976710656"
  using u48LE_at_bounds [of b k] by simp

lemma i64_id: "- (2 ^ 63) \<le> x \<Longrightarrow> x < 2 ^ 63 \<Longrightarrow> i64 x = x"
  by (simp add: i64_def)

lemma bitwiseSubset_iff: "bitwiseSubset outer inner \<longleftrightarrow> (\<forall>n. bit inner n \<longrightarrow> bit outer n)"
proof
  assume "bitwiseSubset outer inner"
  then have eq: "outer = outer OR inner"
    by (simp add: bitwiseSubset_def)
  show "\<forall>n. bit inner n \<longrightarrow> bit outer n"
  proof (intro allI impI)
    fix n assume "bit inner n"
    then have "bit (outer OR inner) n" by (simp add: bit_or_iff)
    with eq show "bit outer n" by simp
  qed
next
  assume sub: "\<forall>n. bit inner n \<longrightarrow> bit outer n"
  have "outer = outer OR inner"
    by (rule bit_eqI) (use sub in \<open>auto simp: bit_or_iff\<close>)
  then show "bitwiseSubset outer inner"
    by (simp add: bitwiseSubset_def)
qed

lemma all_from_Suc:
  "P i \<Longrightarrow> (\<forall>j. i + 1 \<le> j \<and> j < n \<longrightarrow> P j) \<longleftrightarrow> (\<forall>j. i \<le> j \<and> j < (n::nat) \<longrightarrow> P j)"
proof (rule iffI; intro allI impI)
  fix j
  assume pi: "P i" and h: "\<forall>j. i + 1 \<le> j \<and> j < n \<longrightarrow> P j" and j: "i \<le> j \<and> j < n"
  show "P j"
  proof (cases "j = i")
    case True then show ?thesis using pi by simp
  next
    case False
    then have "i + 1 \<le> j" using j by simp
    then show ?thesis using h j by blast
  qed
next
  fix j
  assume h: "\<forall>j. i \<le> j \<and> j < n \<longrightarrow> P j" and j: "i + 1 \<le> j \<and> j < n"
  then have "i \<le> j \<and> j < n" by simp
  then show "P j" using h by blast
qed

lemma valid_tags_iff:
  "valid_tags b n i \<longleftrightarrow>
     (\<forall>j. i \<le> j \<and> j < n \<longrightarrow> b (8 * j + 6) = 0 \<and> \<not> (0xC0 \<le> b (8 * j + 7) \<and> b (8 * j + 7) < 0xFE))"
proof (induction b n i rule: valid_tags.induct)
  case (1 b n i)
  show ?case
  proof (cases "i < n")
    case False
    then show ?thesis by (subst valid_tags.simps) auto
  next
    case True
    let ?ok = "b (8 * i + 6) = 0 \<and> \<not> (0xC0 \<le> b (8 * i + 7) \<and> b (8 * i + 7) < 0xFE)"
    show ?thesis
    proof (cases ?ok)
      case False
      with True show ?thesis by (subst valid_tags.simps) auto
    next
      case ok: True
      then have "valid_tags b n i = valid_tags b n (i + 1)"
        using True by (subst valid_tags.simps) auto
      also have "\<dots> \<longleftrightarrow> (\<forall>j. i + 1 \<le> j \<and> j < n \<longrightarrow>
          b (8 * j + 6) = 0 \<and> \<not> (0xC0 \<le> b (8 * j + 7) \<and> b (8 * j + 7) < 0xFE))"
        using 1 True ok by blast
      also have "\<dots> \<longleftrightarrow> (\<forall>j. i \<le> j \<and> j < n \<longrightarrow>
          b (8 * j + 6) = 0 \<and> \<not> (0xC0 \<le> b (8 * j + 7) \<and> b (8 * j + 7) < 0xFE))"
        using ok by (intro all_from_Suc) simp
      finally show ?thesis .
    qed
  qed
qed

lemma valid_cptrs_iff:
  "valid_cptrs b n base cMax i \<longleftrightarrow> (\<forall>j. i \<le> j \<and> j < n \<longrightarrow> u48LE_at b (8 * j + base) \<le> cMax)"
proof (induction b n base cMax i rule: valid_cptrs.induct)
  case (1 b n base cMax i)
  show ?case
  proof (cases "i < n")
    case False
    then show ?thesis by (subst valid_cptrs.simps) auto
  next
    case True
    show ?thesis
    proof (cases "u48LE_at b (8 * i + base) \<le> cMax")
      case False
      with True show ?thesis by (subst valid_cptrs.simps) auto
    next
      case ok: True
      then have "valid_cptrs b n base cMax i = valid_cptrs b n base cMax (i + 1)"
        using True by (subst valid_cptrs.simps) auto
      also have "\<dots> \<longleftrightarrow> (\<forall>j. i + 1 \<le> j \<and> j < n \<longrightarrow> u48LE_at b (8 * j + base) \<le> cMax)"
        using 1 True ok by simp
      also have "\<dots> \<longleftrightarrow> (\<forall>j. i \<le> j \<and> j < n \<longrightarrow> u48LE_at b (8 * j + base) \<le> cMax)"
        using ok by (intro all_from_Suc) simp
      finally show ?thesis .
    qed
  qed
qed

lemma valid_dptrs_iff:
  "valid_dptrs b n i prev \<longleftrightarrow>
     (i \<le> n \<longrightarrow> prev \<le> u48LE_at b (8 * i)) \<and>
     (\<forall>j. i \<le> j \<and> j < n \<longrightarrow> u48LE_at b (8 * j) \<le> u48LE_at b (8 * (j + 1)))"
proof (induction b n i prev rule: valid_dptrs.induct)
  case (1 b n i prev)
  show ?case
  proof (cases "i \<le> n")
    case False
    then show ?thesis by (subst valid_dptrs.simps) auto
  next
    case True
    show ?thesis
    proof (cases "prev \<le> u48LE_at b (8 * i)")
      case False
      with True show ?thesis by (subst valid_dptrs.simps) (auto simp: Let_def)
    next
      case ok: True
      then have "valid_dptrs b n i prev = valid_dptrs b n (i + 1) (u48LE_at b (8 * i))"
        using True by (subst valid_dptrs.simps) (auto simp: Let_def)
      also have "\<dots> \<longleftrightarrow> (i + 1 \<le> n \<longrightarrow> u48LE_at b (8 * i) \<le> u48LE_at b (8 * (i + 1))) \<and>
          (\<forall>j. i + 1 \<le> j \<and> j < n \<longrightarrow> u48LE_at b (8 * j) \<le> u48LE_at b (8 * (j + 1)))"
        using 1 True ok by simp
      finally have step: "valid_dptrs b n i prev \<longleftrightarrow>
          (i + 1 \<le> n \<longrightarrow> u48LE_at b (8 * i) \<le> u48LE_at b (8 * (i + 1))) \<and>
          (\<forall>j. i + 1 \<le> j \<and> j < n \<longrightarrow> u48LE_at b (8 * j) \<le> u48LE_at b (8 * (j + 1)))" .
      show ?thesis
      proof (cases "i < n")
        case lt: True
        then have "valid_dptrs b n i prev \<longleftrightarrow> u48LE_at b (8 * i) \<le> u48LE_at b (8 * (i + 1)) \<and>
          (\<forall>j. i + 1 \<le> j \<and> j < n \<longrightarrow> u48LE_at b (8 * j) \<le> u48LE_at b (8 * (j + 1)))"
          using step by simp
        also have "\<dots> \<longleftrightarrow> (\<forall>j. i \<le> j \<and> j < n \<longrightarrow> u48LE_at b (8 * j) \<le> u48LE_at b (8 * (j + 1)))"
        proof (cases "u48LE_at b (8 * i) \<le> u48LE_at b (8 * (i + 1))")
          case True
          then show ?thesis
            using all_from_Suc [of "\<lambda>j. u48LE_at b (8 * j) \<le> u48LE_at b (8 * (j + 1))" i n]
            by simp
        next
          case False
          then show ?thesis using lt by auto
        qed
        finally show ?thesis using ok True by simp
      next
        case ge: False
        then have "i = n" using True by simp
        then show ?thesis using step ok by auto
      qed
    qed
  qed
qed

lemma base256_unique:
  assumes "0 \<le> a" "a < 256" "0 \<le> r" "r < 256"
  shows "(a = r \<and> u = q) \<longleftrightarrow> a + 256 * u = r + 256 * (q::int)"
proof
  assume "a = r \<and> u = q"
  then show "a + 256 * u = r + 256 * q" by simp
next
  assume e: "a + 256 * u = r + 256 * q"
  have "u = q" using e assms by linarith
  then show "a = r \<and> u = q" using e by simp
qed

lemma checksum_bytes_iff:
  "uint (x :: byte) = c mod 256 \<and> uint (y :: byte) = (c div 256) mod 256 \<longleftrightarrow>
   uint x + 256 * uint y = c mod 65536"
proof -
  have "c mod (256 * 256) = 256 * (c div 256 mod 256) + c mod 256"
    by (rule zmod_zmult2_eq) simp
  then have split: "c mod 65536 = c mod 256 + 256 * (c div 256 mod 256)"
    by simp
  have bx: "0 \<le> uint x" "uint x < 256"
    using uint_lt2p [of x] by simp_all
  have br: "0 \<le> c mod 256" "c mod 256 < 256"
    by simp_all
  show ?thesis
    unfolding split by (rule base256_unique [OF bx br])
qed

lemma dptrs_iff:
  "valid_dptrs b n 2 (u48LE_at b (8 * 1)) \<longleftrightarrow> (\<forall>i<n. DPtr b i \<le> DPtr b (i + 1))"
proof
  assume v: "valid_dptrs b n 2 (u48LE_at b (8 * 1))"
  then have first: "2 \<le> n \<longrightarrow> u48LE_at b 8 \<le> u48LE_at b 16"
    and rest: "\<And>j. 2 \<le> j \<Longrightarrow> j < n \<Longrightarrow> u48LE_at b (8 * j) \<le> u48LE_at b (8 * (j + 1))"
    by (simp_all add: valid_dptrs_iff)
  show "\<forall>i<n. DPtr b i \<le> DPtr b (i + 1)"
  proof (intro allI impI)
    fix i assume i: "i < n"
    consider "i = 0" | "i = 1" | "2 \<le> i" by linarith
    then show "DPtr b i \<le> DPtr b (i + 1)"
    proof cases
      case 1
      then show ?thesis by (simp add: DPtr_def u48LE_at_nonneg)
    next
      case 2
      then show ?thesis using first i by (simp add: DPtr_def)
    next
      case 3
      then show ?thesis using rest [of i] i by (simp add: DPtr_def)
    qed
  qed
next
  assume m: "\<forall>i<n. DPtr b i \<le> DPtr b (i + 1)"
  have "2 \<le> n \<longrightarrow> u48LE_at b 8 \<le> u48LE_at b 16"
  proof
    assume "2 \<le> n"
    then have "DPtr b 1 \<le> DPtr b (1 + 1)" using m by simp
    then show "u48LE_at b 8 \<le> u48LE_at b 16" by (simp add: DPtr_def)
  qed
  moreover have "\<forall>j. 2 \<le> j \<and> j < n \<longrightarrow> u48LE_at b (8 * j) \<le> u48LE_at b (8 * (j + 1))"
  proof (intro allI impI)
    fix j assume j: "2 \<le> j \<and> j < n"
    then have "DPtr b j \<le> DPtr b (j + 1)" using m by simp
    then show "u48LE_at b (8 * j) \<le> u48LE_at b (8 * (j + 1))" using j by (simp add: DPtr_def)
  qed
  ultimately show "valid_dptrs b n 2 (u48LE_at b (8 * 1))"
    by (simp add: valid_dptrs_iff)
qed

lemma folded_crc16:
  "folded_checksum b (16 * arity b + 16) mod 65536 = crc16 b"
  by (simp add: folded_checksum_def crc16_def Let_def)

lemma valid_iff: "valid b \<longleftrightarrow> node_invariants b"
proof -
  let ?n = "unat (b 3)"
  have sz: "16 * ?n + 16 - 1 = 16 * ?n + 15" "16 * ?n + 16 - 8 = 16 * ?n + 8"
    by simp_all
  have crc: "uint (b 4) = folded_checksum b (16 * ?n + 16) mod 256 \<and>
             uint (b 5) = folded_checksum b (16 * ?n + 16) div 256 mod 256 \<longleftrightarrow>
             stored_checksum b = crc16 b"
    unfolding checksum_bytes_iff stored_checksum_def
    using folded_crc16 [of b] by (simp add: arity_def)
  have "valid b \<longleftrightarrow>
      b 0 = 0x72 \<and> b 1 = 0xC3 \<and> b 2 = 0x63 \<and> b 3 \<noteq> 0 \<and> b 3 = b (16 * ?n + 15) \<and>
      valid_tags b ?n 0 \<and> b (8 * ?n + 6) = 0 \<and> b (8 * ?n + 7) \<noteq> 0 \<and>
      valid_dptrs b ?n 2 (u48LE_at b (8 * 1)) \<and>
      valid_cptrs b ?n (8 * ?n + 8) (u48LE_at b (16 * ?n + 8)) 0 \<and>
      b (16 * ?n + 14) \<noteq> 0 \<and>
      (uint (b 4) = folded_checksum b (16 * ?n + 16) mod 256 \<and>
       uint (b 5) = folded_checksum b (16 * ?n + 16) div 256 mod 256)"
    unfolding valid_def Let_def magic_def sz by auto
  also have "\<dots> \<longleftrightarrow> node_invariants b"
    unfolding crc dptrs_iff valid_tags_iff valid_cptrs_iff node_invariants_def
    by (auto simp: arity_def tTag_def codec_def version_def CPtr_def cPtrMax_def)
  finally show ?thesis .
qed

lemma u48LE_at_eval:
  "u48LE_at b k =
     sint ((ucast (b k) OR push_bit 8 (ucast (b (k + 1))) OR push_bit 16 (ucast (b (k + 2))) OR
       push_bit 24 (ucast (b (k + 3))) OR push_bit 32 (ucast (b (k + 4))) OR
       push_bit 40 (ucast (b (k + 5))) OR push_bit 48 (ucast (b (k + 6))) OR
       push_bit 56 (ucast (b (k + 7))) :: 64 word) AND 0xFFFFFFFFFFFF)"
  by (simp add: u48LE_at_def u48LE_def length_slice8 le64_def slice8_nth)

lemma fcc_from_SomeD:
  "findChunkContaining_from b i d db = Some k \<Longrightarrow>
     i \<le> k \<and> k < arity b \<and> d < dOff b (k + 1) db \<and>
     (\<forall>j. i \<le> j \<and> j < k \<longrightarrow> \<not> d < dOff b (j + 1) db)"
proof (induction b i d db rule: findChunkContaining_from.induct)
  case (1 b i d db)
  show ?case
  proof (cases "i < arity b \<and> \<not> d < dOff b (i + 1) db")
    case True
    then have "findChunkContaining_from b (i + 1) d db = Some k"
      using "1.prems" by (subst (asm) findChunkContaining_from.simps) simp
    then have ih: "i + 1 \<le> k \<and> k < arity b \<and> d < dOff b (k + 1) db \<and>
        (\<forall>j. i + 1 \<le> j \<and> j < k \<longrightarrow> \<not> d < dOff b (j + 1) db)"
      using "1.IH" True by simp
    have "\<forall>j. i \<le> j \<and> j < k \<longrightarrow> \<not> d < dOff b (j + 1) db"
      using ih True all_from_Suc [of "\<lambda>j. \<not> d < dOff b (j + 1) db" i k] by simp
    then show ?thesis using ih by simp
  next
    case False
    then show ?thesis
      using "1.prems" by (subst (asm) findChunkContaining_from.simps) (auto split: if_splits)
  qed
qed

lemma fcc_from_NoneD:
  "findChunkContaining_from b i d db = None \<Longrightarrow>
     (\<forall>j. i \<le> j \<and> j < arity b \<longrightarrow> \<not> d < dOff b (j + 1) db)"
proof (induction b i d db rule: findChunkContaining_from.induct)
  case (1 b i d db)
  show ?case
  proof (cases "i < arity b")
    case True
    have nd: "\<not> d < dOff b (i + 1) db"
      using "1.prems" True by (subst (asm) findChunkContaining_from.simps) (auto split: if_splits)
    then have "findChunkContaining_from b (i + 1) d db = None"
      using "1.prems" True by (subst (asm) findChunkContaining_from.simps) simp
    then have "\<forall>j. i + 1 \<le> j \<and> j < arity b \<longrightarrow> \<not> d < dOff b (j + 1) db"
      using "1.IH" True nd by simp
    then show ?thesis
      using nd all_from_Suc [of "\<lambda>j. \<not> d < dOff b (j + 1) db" i "arity b"] by simp
  next
    case False
    then show ?thesis by simp
  qed
qed

lemma fcc_SomeD:
  assumes "findChunkContaining b d db = Some k"
  shows "k < arity b" and "d < dOff b (k + 1) db" and "\<And>j. j < k \<Longrightarrow> \<not> d < dOff b (j + 1) db"
  using fcc_from_SomeD [of b 0 d db k] assms by (simp_all add: findChunkContaining_def)

lemma fcc_contains:
  assumes "findChunkContaining b d db = Some k" and "db \<le> d"
  shows "dOff b k db \<le> d"
proof (cases k)
  case 0
  then show ?thesis using assms(2) by (simp add: dOff_def)
next
  case (Suc j)
  then have "\<not> d < dOff b (j + 1) db"
    using fcc_SomeD(3) [OF assms(1), of j] by simp
  then show ?thesis using Suc by simp
qed

lemma valid_arity_pos: "valid b \<Longrightarrow> 0 < arity b"
  by (simp add: valid_iff node_invariants_def arity_def unat_gt_0)

lemma dOff_arity: "0 < arity b \<Longrightarrow> dOff b (arity b) db = i64 (db + dPtrMax b)"
  by (simp add: dOff_def dPtrMax_def arity_def)

text \<open>
  C8. On a buffer that \<open>valid\<close> accepts, and for \<open>dBias \<le> d < dBias + dPtrMax\<close> (the
  sum as the code computes it, an \<open>int64\<close>), \<open>findChunkContaining\<close> returns the smallest
  slot \<open>i\<close> with \<open>d < dOff(i + 1, dBias)\<close>; that slot holds \<open>d\<close>, and the panic after the
  loop is not reached.
\<close>

theorem findChunkContaining_smallest:
  assumes "valid b" and "dBias \<le> d" and "d < i64 (dBias + dPtrMax b)"
  shows "\<exists>i. findChunkContaining b d dBias = Some i \<and> i < arity b \<and>
           dOff b i dBias \<le> d \<and> d < dOff b (i + 1) dBias \<and>
           (\<forall>j<i. \<not> d < dOff b (j + 1) dBias)"
proof (cases "findChunkContaining b d dBias")
  case None
  have pos: "0 < arity b" using assms(1) by (rule valid_arity_pos)
  have "findChunkContaining_from b 0 d dBias = None"
    using None by (simp add: findChunkContaining_def)
  from fcc_from_NoneD [OF this, rule_format, of "arity b - 1"]
  have "\<not> d < dOff b (arity b - 1 + 1) dBias"
    using pos by simp
  then have "\<not> d < dOff b (arity b) dBias" using pos by simp
  then show ?thesis using assms(3) pos by (simp add: dOff_arity)
next
  case (Some i)
  then show ?thesis
    using fcc_SomeD [OF Some] fcc_contains [OF Some assms(2)] by auto
qed

lemma crc_flat_file:
  "ChecksumIEEE [0x00, 0xFF, 0x64, 0x00, 0x00, 0x00, 0x00, 0x00, 0x00, 0x01,
      0x00, 0x00, 0x00, 0x00, 0x00, 0x00, 0x00, 0xFF,  0x20, 0x00, 0x00, 0x00, 0x00, 0x00, 0x01, 0x01]
   = 0x5B062CCC"
  by code_simp

lemmas node_eval = valid_def valid_tags.simps valid_dptrs.simps valid_cptrs.simps
  folded_checksum_def u48LE_at_eval cPtrMax_def dPtrMax_def version_def arity_def codec_def
  magic_def Let_def dOff_def i64_def findChunkContaining_def findChunkContaining_from.simps

lemma flat_node_bytes:
  "j < 32 \<Longrightarrow> node_at flat_file 0 j = flat_file ! j"
  by (simp add: node_at_def flat_file_def)

lemma valid_flat_node: "valid (node_at flat_file 0)"
  by (simp add: node_eval node_at_def flat_file_def crc_flat_file)

theorem findChunkContaining_smallest_witness:
  "valid (node_at flat_file 0) \<and> (0::int) \<le> 42 \<and> 42 < i64 (0 + dPtrMax (node_at flat_file 0)) \<and>
   findChunkContaining (node_at flat_file 0) 42 0 = Some 0"
proof -
  have d: "(42::int) < i64 (0 + dPtrMax (node_at flat_file 0))"
    by (simp add: node_eval node_at_def flat_file_def)
  have "\<exists>i. findChunkContaining (node_at flat_file 0) 42 0 = Some i \<and> i < arity (node_at flat_file 0)"
    using findChunkContaining_smallest [OF valid_flat_node _ d] by auto
  moreover have "arity (node_at flat_file 0) = 1"
    by (simp add: arity_def node_at_def flat_file_def)
  ultimately show ?thesis using valid_flat_node d by auto
qed

section \<open>Frame conditions and the descent\<close>

lemma frame_refl: "frame r r"
  by (simp add: frame_def)

lemma frame_trans: "frame r r' \<Longrightarrow> frame r' r'' \<Longrightarrow> frame r r''"
  by (simp add: frame_def)

lemma load_frame: "load r off a = (e, r') \<Longrightarrow> frame r r'"
  by (auto simp: load_def frame_def split: if_splits prod.splits option.splits)

lemma load_seek: "load r off a = (e, r') \<Longrightarrow> seekPosition r' = seekPosition r"
  by (auto simp: load_def split: if_splits prod.splits option.splits)

lemma load_err:
  "load r off a = (e, r') \<Longrightarrow> err r' = (case e of None \<Rightarrow> err r | Some x \<Rightarrow> Some x)"
  by (auto simp: load_def split: if_splits prod.splits option.splits)

lemma loadAndValidate_frame:
  "loadAndValidate r off pc pv pm cb ds = (e, r') \<Longrightarrow> frame r r'"
  unfolding loadAndValidate_def Let_def
  by (auto simp: frame_def load_def split: if_splits prod.splits option.splits)

lemma loadAndValidate_seek:
  "loadAndValidate r off pc pv pm cb ds = (e, r') \<Longrightarrow> seekPosition r' = seekPosition r"
  unfolding loadAndValidate_def Let_def
  by (auto simp: load_def split: if_splits prod.splits option.splits)

lemma loadAndValidate_err:
  "loadAndValidate r off pc pv pm cb ds = (e, r') \<Longrightarrow>
     err r' = (case e of None \<Rightarrow> err r | Some x \<Rightarrow> Some x)"
  unfolding loadAndValidate_def Let_def
  by (auto simp: load_def split: if_splits prod.splits option.splits)

lemma resolve_walk_unfold:
  "resolve_walk r cb db =
     (case findChunkContaining (currNode r) (seekPosition r) db of
        None \<Rightarrow> Some Panic
      | Some i \<Rightarrow>
          if isLeaf (currNode r) i
          then Some (Return (None, r\<lparr>nextChunk := i, currNodeCBias := cb, currNodeDBias := db\<rparr>))
          else (case descend r i cb of
                  (Some e, r1) \<Rightarrow> Some (Return (Some e, r1))
                | (None, r1) \<Rightarrow>
                    resolve_walk r1 (childCBias_of (currNode r) i cb) (dOff (currNode r) i db)))"
  by (subst resolve_walk.simps)
    (auto simp: descend_def childCBias_of_def Let_def split: option.split prod.split)

lemma walk_imp_resolve_walk: "walk r cb db y \<Longrightarrow> resolve_walk r cb db = Some y"
  by (induction rule: walk.induct) (simp_all add: resolve_walk_unfold)

lemmas resolve_walk_induct = resolve_walk.raw_induct [rotated, consumes 1, case_names step]

lemma resolve_walk_imp_walk: "resolve_walk r cb db = Some y \<Longrightarrow> walk r cb db y"
proof (induction r cb db y rule: resolve_walk_induct)
  case (step w r cb db y)
  note IH = step(1) and body = step(2)
  show ?case
  proof (cases "findChunkContaining (currNode r) (seekPosition r) db")
    case None
    then have "y = Panic" using body by simp
    then show ?thesis using None by (simp add: walk.panic)
  next
    case (Some i)
    show ?thesis
    proof (cases "isLeaf (currNode r) i")
      case True
      then have "y = Return (None, r\<lparr>nextChunk := i, currNodeCBias := cb, currNodeDBias := db\<rparr>)"
        using body Some by simp
      then show ?thesis using Some True by (simp add: walk.leaf)
    next
      case False
      obtain e r1 where d: "descend r i cb = (e, r1)" by (cases "descend r i cb")
      show ?thesis
      proof (cases e)
        case None
        then have "w r1 (childCBias_of (currNode r) i cb) (dOff (currNode r) i db) = Some y"
          using body Some False d
          by (simp add: descend_def childCBias_of_def Let_def)
        then have "walk r1 (childCBias_of (currNode r) i cb) (dOff (currNode r) i db) y"
          by (rule IH)
        then show ?thesis using Some False d None by (auto intro: walk.branch)
      next
        case (Some e')
        then have "y = Return (Some e', r1)"
          using body \<open>findChunkContaining (currNode r) (seekPosition r) db = Some i\<close> False d
          by (simp add: descend_def childCBias_of_def Let_def)
        then show ?thesis
          using \<open>findChunkContaining (currNode r) (seekPosition r) db = Some i\<close> False d Some
          by (auto intro: walk.fail)
      qed
    qed
  qed
qed

lemma resolve_walk_iff_walk: "resolve_walk r cb db = Some y \<longleftrightarrow> walk r cb db y"
  using walk_imp_resolve_walk resolve_walk_imp_walk by blast

lemma descend_frame: "descend r i cb = (e, r') \<Longrightarrow> frame r r'"
  unfolding descend_def by (rule loadAndValidate_frame)

lemma descend_seek: "descend r i cb = (e, r') \<Longrightarrow> seekPosition r' = seekPosition r"
  unfolding descend_def by (rule loadAndValidate_seek)

lemma descend_err:
  "descend r i cb = (e, r') \<Longrightarrow> err r' = (case e of None \<Rightarrow> err r | Some x \<Rightarrow> Some x)"
  unfolding descend_def by (rule loadAndValidate_err)

lemma walk_frame: "walk r cb db y \<Longrightarrow> y = Return (e, r') \<Longrightarrow> frame r r'"
proof (induction arbitrary: e r' rule: walk.induct)
  case (panic r dBias cBias)
  then show ?case by simp
next
  case (leaf r dBias i cBias)
  then show ?case by (auto simp: frame_def)
next
  case (fail r dBias i cBias e1 r1)
  then show ?case by (auto dest: descend_frame)
next
  case (branch r dBias i cBias r1 y)
  then show ?case by (blast intro: frame_trans dest: descend_frame)
qed

lemma walk_err:
  "walk r cb db y \<Longrightarrow> y = Return (e, r') \<Longrightarrow>
     err r' = (case e of None \<Rightarrow> err r | Some x \<Rightarrow> Some x)"
proof (induction arbitrary: e r' rule: walk.induct)
  case (panic r dBias cBias)
  then show ?case by simp
next
  case (leaf r dBias i cBias)
  then show ?case by auto
next
  case (fail r dBias i cBias e1 r1)
  then show ?case by (auto dest: descend_err)
next
  case (branch r dBias i cBias r1 y)
  from branch.hyps(3) have "err r1 = err r" by (auto dest: descend_err)
  with branch.IH [OF branch.prems] show ?case by (simp split: option.splits)
qed

section \<open>Reader states\<close>

lemma tryRootNode_dsize:
  assumes "tryRootNode r a fe = (x, r')"
    and "0 \<le> decompressedSize r \<and> decompressedSize r < 2 ^ 48"
  shows "0 \<le> decompressedSize r' \<and> decompressedSize r' < 2 ^ 48"
  using assms u48LE_at_bounds [of "currNode (snd (load r (if fe then CompressedSize r - int (nodeSize a) else 0) a))" "8 * unat (currNode (snd (load r (if fe then CompressedSize r - int (nodeSize a) else 0) a)) 3)"]
  unfolding tryRootNode_def Let_def
  by (auto simp: load_def dPtrMax_def split: if_splits prod.splits option.splits)

lemma findRootNode_dsize:
  assumes "findRootNode r = (e, r')"
    and "0 \<le> decompressedSize r \<and> decompressedSize r < 2 ^ 48"
  shows "0 \<le> decompressedSize r' \<and> decompressedSize r' < 2 ^ 48"
proof -
  have step: "\<And>r a fe x r'. tryRootNode r a fe = (x, r') \<Longrightarrow>
      0 \<le> decompressedSize r \<and> decompressedSize r < 2 ^ 48 \<Longrightarrow>
      0 \<le> decompressedSize r' \<and> decompressedSize r' < 2 ^ 48"
    by (rule tryRootNode_dsize)
  show ?thesis
    using assms unfolding findRootNode_def Let_def
    by (auto split: if_splits prod.splits option.splits bool.splits dest!: step)
qed

lemma initialize_dsize:
  assumes "initialize r = (e, r')"
    and "0 \<le> decompressedSize r \<and> decompressedSize r < 2 ^ 48"
  shows "0 \<le> decompressedSize r' \<and> decompressedSize r' < 2 ^ 48"
  using assms unfolding initialize_def Let_def checkParameters_def
  by (auto split: if_splits prod.splits option.splits dest!: findRootNode_dsize)

lemma chunk_loop_frame: "chunk_loop r = (c, r') \<Longrightarrow> frame r r'"
proof (induction r arbitrary: c r' rule: chunk_loop.induct)
  case (1 r)
  show ?case
  proof (cases "nextChunk r < arity (currNode r)")
    case False
    then show ?thesis using "1.prems" by (subst (asm) chunk_loop.simps) (simp add: frame_def)
  next
    case True
    let ?c = "chunk (currNode r) (nextChunk r) (currNodeCBias r) (currNodeDBias r)"
    let ?r1 = "r\<lparr>nextChunk := nextChunk r + 1, seekPosition := snd (DRange ?c)\<rparr>"
    show ?thesis
    proof (cases "Range_Empty (DRange ?c)")
      case False
      then show ?thesis
        using "1.prems" True by (subst (asm) chunk_loop.simps) (auto simp: frame_def Let_def)
    next
      case e: True
      then have "chunk_loop ?r1 = (c, r')"
        using "1.prems" True by (subst (asm) chunk_loop.simps) (simp add: Let_def)
      then have "frame ?r1 r'"
        using "1.IH" [OF True refl refl] e by simp
      then show ?thesis by (simp add: frame_def)
    qed
  qed
qed

lemma resolveSeekPosition_frame:
  "resolveSeekPosition r = Some (Return (e, r')) \<Longrightarrow> frame r r'"
  unfolding resolveSeekPosition_def
  by (auto split: prod.splits option.splits simp: resolve_walk_iff_walk
      dest!: load_frame dest: walk_frame frame_trans)

lemmas NextChunk_loop_induct =
  NextChunk_loop.raw_induct [rotated, consumes 1, case_names step]

lemma NextChunk_loop_frame:
  "NextChunk_loop r = Some y \<Longrightarrow> y = Return (x, r') \<Longrightarrow> frame r r'"
proof (induction r y arbitrary: x r' rule: NextChunk_loop_induct)
  case (step loop r y)
  note IH = step(1) and body = step(2) and y = step(3)
  let ?pre = "if needToResolveSeekPosition r then
      (if seekPosition r \<ge> decompressedSize r then Some (Return (Some EOF, r))
       else resolveSeekPosition (r\<lparr>needToResolveSeekPosition := False\<rparr>))
    else Some (Return (None, r))"
  show ?case
  proof (cases ?pre)
    case None
    then show ?thesis using body by simp
  next
    case (Some p)
    show ?thesis
    proof (cases p)
      case Panic
      then show ?thesis using body Some y by simp
    next
      case (Return er)
      obtain e r1 where er: "er = (e, r1)" by (cases er)
      have f1: "frame r r1"
        using Some Return er
        by (auto split: if_splits simp: frame_refl frame_def dest!: resolveSeekPosition_frame)
      show ?thesis
      proof (cases e)
        case (Some e')
        then show ?thesis using body \<open>?pre = Some p\<close> Return er y f1 by simp
      next
        case None
        obtain c r2 where cl: "chunk_loop r1 = (c, r2)" by (cases "chunk_loop r1")
        have f2: "frame r1 r2" using cl by (rule chunk_loop_frame)
        show ?thesis
        proof (cases c)
          case (Some c')
          then have "r' = r2" using body \<open>?pre = Some p\<close> Return er y None cl by simp
          then show ?thesis using f1 f2 by (blast intro: frame_trans)
        next
          case n: None
          then have "loop (r2\<lparr>needToResolveSeekPosition := True\<rparr>) = Some y"
            using body \<open>?pre = Some p\<close> Return er None cl by simp
          then have "frame (r2\<lparr>needToResolveSeekPosition := True\<rparr>) r'"
            using IH y by blast
          then have "frame r2 r'" by (simp add: frame_def)
          then show ?thesis using f1 f2 by (blast intro: frame_trans)
        qed
      qed
    qed
  qed
qed

lemma NextChunk_dsize:
  assumes "NextChunk r = Some (Return (x, r'))"
    and "0 \<le> decompressedSize r \<and> decompressedSize r < 2 ^ 48"
  shows "0 \<le> decompressedSize r' \<and> decompressedSize r' < 2 ^ 48"
proof -
  obtain e r1 where i: "initialize r = (e, r1)" by (cases "initialize r")
  have d1: "0 \<le> decompressedSize r1 \<and> decompressedSize r1 < 2 ^ 48"
    using i assms(2) by (rule initialize_dsize)
  show ?thesis
  proof (cases e)
    case (Some e')
    then show ?thesis using assms(1) i d1 by (simp add: NextChunk_def)
  next
    case None
    then have "NextChunk_loop r1 = Some (Return (x, r'))"
      using assms(1) i by (simp add: NextChunk_def)
    then have "frame r1 r'" by (rule NextChunk_loop_frame) simp
    then show ?thesis using d1 by (simp add: frame_def)
  qed
qed

lemma reachable_dsize:
  "reachable r \<Longrightarrow> 0 \<le> decompressedSize r \<and> decompressedSize r < 2 ^ 48"
proof (induction rule: reachable.induct)
  case (fresh f n)
  then show ?case by (simp add: newReader_def)
next
  case (after_DecompressedSize r)
  obtain e r1 where i: "initialize r = (e, r1)" by (cases "initialize r")
  then have "snd (DecompressedSize r) = r1"
    by (simp add: DecompressedSize_def split: option.splits)
  then show ?case using initialize_dsize [OF i] after_DecompressedSize.IH by simp
next
  case (after_SeekToChunkContaining r d)
  obtain e r1 where i: "initialize r = (e, r1)" by (cases "initialize r")
  then have "decompressedSize (snd (SeekToChunkContaining r d)) = decompressedSize r1"
    by (simp add: SeekToChunkContaining_def split: option.splits)
  then show ?case using initialize_dsize [OF i] after_SeekToChunkContaining.IH by simp
next
  case (after_NextChunk r x r')
  show ?case
    using after_NextChunk.hyps(2) after_NextChunk.IH by (rule NextChunk_dsize)
qed


lemma u48LE_Some:
  "8 \<le> length bs \<Longrightarrow> \<exists>v. u48LE bs = Some v \<and> 0 \<le> v \<and> v < 2 ^ 48"
  using sint_and_mask48 [of "le64 bs"] by (simp add: u48LE_def)

text \<open>
  C10. \<open>u48LE\<close> on a slice of at least eight bytes returns a value in \<open>[0, 2^48)\<close>;
  hence \<open>DecompressedSize\<close>, when it returns without error on a reader that a caller
  can produce, returns such a value, and \<open>dPtrMax\<close>, \<open>cPtrMax\<close> and the entries of the
  DPtr and CPtr tables are never negative.
\<close>

theorem u48LE_range:
  "(8 \<le> length bs \<longrightarrow> (\<exists>v. u48LE bs = Some v \<and> 0 \<le> v \<and> v < 2 ^ 48)) \<and>
   (reachable r \<and> DecompressedSize r = ((n, None), r') \<longrightarrow> 0 \<le> n \<and> n < 2 ^ 48) \<and>
   0 \<le> dPtrMax b \<and> 0 \<le> cPtrMax b \<and> 0 \<le> DPtr b i \<and> 0 \<le> CPtr b i"
proof (intro conjI impI)
  assume "8 \<le> length bs"
  then show "\<exists>v. u48LE bs = Some v \<and> 0 \<le> v \<and> v < 2 ^ 48" by (rule u48LE_Some)
next
  assume a: "reachable r \<and> DecompressedSize r = ((n, None), r')"
  then have "reachable (snd (DecompressedSize r))"
    by (blast intro: reachable.after_DecompressedSize)
  then have d: "0 \<le> decompressedSize r' \<and> decompressedSize r' < 2 ^ 48"
    using a reachable_dsize [of r'] by simp
  have "n = decompressedSize r'"
    using a by (auto simp: DecompressedSize_def split: prod.splits option.splits)
  then show "0 \<le> n" and "n < 2 ^ 48" using d by simp_all
qed (simp_all add: dPtrMax_def cPtrMax_def DPtr_def CPtr_def u48LE_at_nonneg)

lemmas reader_eval = DecompressedSize_def SeekToChunkContaining_def initialize_def
  checkParameters_def findRootNode_def tryRootNode_def load_def readAt_def contents_def
  newReader_def nodeSize_def

lemmas flat_eval = flat_file_def node_eval crc_flat_file

lemma flat_DecompressedSize:
  "fst (DecompressedSize (newReader flat_file 32)) = (100, None)"
  by (simp add: reader_eval flat_eval)

theorem u48LE_range_witness:
  "8 \<le> length [0x64, 0, 0, 0, 0, 0, 0, 1 :: byte] \<and>
   u48LE [0x64, 0, 0, 0, 0, 0, 0, 1] = Some 100 \<and>
   reachable (newReader flat_file 32) \<and>
   fst (DecompressedSize (newReader flat_file 32)) = (100, None) \<and>
   (0::int) \<le> 100 \<and> (100::int) < 2 ^ 48"
proof -
  let ?r = "newReader flat_file 32"
  have len: "8 \<le> length [0x64, 0, 0, 0, 0, 0, 0, 1 :: byte]" by simp
  have u: "u48LE [0x64, 0, 0, 0, 0, 0, 0, 1] = Some 100"
    by (simp add: u48LE_def le64_def)
  have re: "reachable ?r" by (rule reachable.fresh)
  have ds: "DecompressedSize ?r = ((100, None), snd (DecompressedSize ?r))"
    using flat_DecompressedSize by (simp add: prod_eq_iff)
  have "0 \<le> (100::int) \<and> (100::int) < 2 ^ 48"
    using u48LE_range [of "[0x64, 0, 0, 0, 0, 0, 0, 1]" ?r 100 "snd (DecompressedSize ?r)"] re ds
    by blast
  then show ?thesis using len u re flat_DecompressedSize by blast
qed

text \<open>
  C2, at the container \<open>noroot_file\<close>: the first call of \<open>DecompressedSize\<close> returns the
  error "missing index root node" and leaves \<open>r.err\<close> nil; the second call returns
  size 0 and no error.
\<close>

theorem missing_root_node_not_latched:
  "fst (DecompressedSize (newReader noroot_file 32)) = (0, Some ErrMissingRootNode) \<and>
   err (snd (DecompressedSize (newReader noroot_file 32))) = None \<and>
   fst (DecompressedSize (snd (DecompressedSize (newReader noroot_file 32)))) = (0, None)"
  by (simp add: reader_eval noroot_file_def magic_def Let_def)

section \<open>Validation\<close>

text \<open>
  C9. \<open>valid\<close> holds exactly for the buffers that meet every structural invariant of
  the node format; in particular it rejects a buffer whose duplicate arity byte at
  \<open>16A + 15\<close> differs from the arity byte at offset 3, and a buffer whose stored
  checksum differs from the CRC-32 of bytes \<open>[6, 16A + 16)\<close> folded to 16 bits.
\<close>

theorem valid_enforces_node_invariants:
  "(valid b \<longleftrightarrow> node_invariants b) \<and>
   (b (16 * arity b + 15) \<noteq> b 3 \<longrightarrow> \<not> valid b) \<and>
   (stored_checksum b \<noteq> crc16 b \<longrightarrow> \<not> valid b)"
  using valid_iff [of b] by (auto simp: node_invariants_def)

lemma flat_crc16: "b = node_at flat_file 0 \<Longrightarrow> crc16 (b(4 := x)) = 0x77CA"
  by (simp add: crc16_def flat_eval node_at_def)

theorem valid_enforces_node_invariants_witness:
  "node_invariants (node_at flat_file 0) \<and>
   \<not> valid ((node_at flat_file 0)(31 := 2)) \<and>
   \<not> valid ((node_at flat_file 0)(4 := 0))"
proof -
  let ?b = "node_at flat_file 0"
  have "node_invariants ?b"
    using valid_enforces_node_invariants [of ?b] valid_flat_node by blast
  moreover have "(?b(31 := 2)) (16 * arity (?b(31 := 2)) + 15) \<noteq> (?b(31 := 2)) 3"
    by (simp add: arity_def node_at_def flat_file_def)
  then have "\<not> valid (?b(31 := 2))"
    using valid_enforces_node_invariants [of "?b(31 := 2)"] by blast
  moreover have "stored_checksum (?b(4 := 0)) \<noteq> crc16 (?b(4 := 0))"
    by (simp add: flat_crc16 stored_checksum_def node_at_def flat_file_def)
  then have "\<not> valid (?b(4 := 0))"
    using valid_enforces_node_invariants [of "?b(4 := 0)"] by blast
  ultimately show ?thesis by blast
qed

text \<open>
  C7. When \<open>loadAndValidate\<close> has loaded a child that \<open>valid\<close> accepts, and the child
  breaks one of the four conditions against its parent (its codec has a bit that the
  parent's codec lacks, its version exceeds the parent's, its CSpace ceiling
  \<open>childCBias + cPtrMax\<close> exceeds the parent's, or its \<open>dPtrMax\<close> differs from the size the
  parent declares for the slot), \<open>loadAndValidate\<close> returns \<open>errInvalidIndexNode\<close> and
  stores it in \<open>r.err\<close>.
\<close>

theorem loadAndValidate_rejects_inconsistent_child:
  assumes "0 \<le> cOffset" and "cOffset \<le> CompressedSize r - 4"
    and "readAt (contents r) (currNode r) 4 cOffset = (None, hdr)"
    and "hdr 3 \<noteq> 0"
    and "int (nodeSize (hdr 3)) \<le> CompressedSize r"
    and "cOffset \<le> CompressedSize r - int (nodeSize (hdr 3))"
    and "load (r\<lparr>currNode := hdr\<rparr>) cOffset (hdr 3) = (None, r2)"
    and "valid (currNode r2)"
    and "(\<exists>n. bit (codec (currNode r2)) n \<and> \<not> bit parentCodec n) \<or>
         parentVersion < version (currNode r2) \<or>
         parentCOffMax < i64 (childCBias + cPtrMax (currNode r2)) \<or>
         childDSize \<noteq> dPtrMax (currNode r2)"
  shows "loadAndValidate r cOffset parentCodec parentVersion parentCOffMax childCBias childDSize
           = (Some ErrInvalidIndexNode, r2\<lparr>err := Some ErrInvalidIndexNode\<rparr>)"
proof -
  have "\<not> bitwiseSubset parentCodec (codec (currNode r2)) \<or>
        parentVersion < version (currNode r2) \<or>
        parentCOffMax < i64 (childCBias + cPtrMax (currNode r2)) \<or>
        childDSize \<noteq> dPtrMax (currNode r2)"
    using assms(9) by (auto simp: bitwiseSubset_iff)
  then show ?thesis
    using assms(1-8) unfolding loadAndValidate_def Let_def by auto
qed

theorem loadAndValidate_rejects_inconsistent_child_witness:
  "fst (loadAndValidate (newReader flat_file 32) 0 1 1 32 0 5) = Some ErrInvalidIndexNode \<and>
   err (snd (loadAndValidate (newReader flat_file 32) 0 1 1 32 0 5)) = Some ErrInvalidIndexNode"
proof -
  let ?r = "newReader flat_file 32"
  let ?hdr = "snd (readAt (contents ?r) (currNode ?r) 4 0)"
  let ?r2 = "snd (load (?r\<lparr>currNode := ?hdr\<rparr>) 0 (?hdr 3))"
  have rd: "readAt (contents ?r) (currNode ?r) 4 0 = (None, ?hdr)"
    by (simp add: readAt_def contents_def newReader_def flat_file_def)
  have a: "?hdr 3 = 1"
    by (simp add: readAt_def contents_def newReader_def flat_file_def)
  have ld: "load (?r\<lparr>currNode := ?hdr\<rparr>) 0 (?hdr 3) = (None, ?r2)"
    unfolding a
    by (simp add: load_def readAt_def contents_def newReader_def nodeSize_def flat_file_def
        Let_def)
  have v: "valid (currNode ?r2)"
    unfolding a
    by (simp add: load_def readAt_def contents_def newReader_def nodeSize_def flat_eval)
  have bad: "(5::int) \<noteq> dPtrMax (currNode ?r2)"
    unfolding a
    by (simp add: load_def readAt_def contents_def newReader_def nodeSize_def flat_eval)
  have "loadAndValidate ?r 0 1 1 32 0 5 =
      (Some ErrInvalidIndexNode, ?r2\<lparr>err := Some ErrInvalidIndexNode\<rparr>)"
  proof (rule loadAndValidate_rejects_inconsistent_child [where hdr = ?hdr])
    show "(0::int) \<le> 0" by simp
    show "0 \<le> CompressedSize ?r - 4" by (simp add: newReader_def)
    show "readAt (contents ?r) (currNode ?r) 4 0 = (None, ?hdr)" by (rule rd)
    show "?hdr 3 \<noteq> 0" using a by simp
    show "int (nodeSize (?hdr 3)) \<le> CompressedSize ?r"
      unfolding a by (simp add: nodeSize_def newReader_def)
    show "0 \<le> CompressedSize ?r - int (nodeSize (?hdr 3))"
      unfolding a by (simp add: nodeSize_def newReader_def)
    show "load (?r\<lparr>currNode := ?hdr\<rparr>) 0 (?hdr 3) = (None, ?r2)" by (rule ld)
    show "valid (currNode ?r2)" by (rule v)
    show "(\<exists>n. bit (codec (currNode ?r2)) n \<and> \<not> bit (1::byte) n) \<or>
         (1::byte) < version (currNode ?r2) \<or>
         (32::int) < i64 (0 + cPtrMax (currNode ?r2)) \<or>
         (5::int) \<noteq> dPtrMax (currNode ?r2)"
      using bad by blast
  qed
  then show ?thesis by simp
qed

section \<open>Buffers that hold the same node\<close>

lemma same_nodeD: "same_node b b' \<Longrightarrow> j < 16 * unat (b 3) + 16 \<Longrightarrow> b' j = b j"
  by (simp add: same_node_def agree_def)

lemma same_node_arity_byte: "same_node b b' \<Longrightarrow> b' 3 = b 3"
  by (rule same_nodeD) simp_all

lemma same_node_refl: "same_node b b"
  by (simp add: same_node_def agree_def)

lemma same_node_sym:
  assumes "same_node b b'"
  shows "same_node b' b"
  unfolding same_node_def agree_def same_node_arity_byte [OF assms]
proof (intro allI impI)
  fix j assume "j < 16 * unat (b 3) + 16"
  then show "b' j = b j" by (rule same_nodeD [OF assms])
qed

lemma same_node_trans:
  assumes "same_node b b'" and "same_node b' b''"
  shows "same_node b b''"
  unfolding same_node_def agree_def
proof (intro allI impI)
  fix j assume j: "j < 16 * unat (b 3) + 16"
  then have "b' j = b j" by (rule same_nodeD [OF assms(1)])
  moreover have "b'' j = b' j"
    using j same_node_arity_byte [OF assms(1)] by (intro same_nodeD [OF assms(2)]) simp
  ultimately show "b j = b'' j" by simp
qed

lemma agree_same_node:
  assumes "agree n b b'" and "16 * unat (b 3) + 16 \<le> n"
  shows "same_node b b'"
  unfolding same_node_def agree_def
proof (intro allI impI)
  fix j assume "j < 16 * unat (b 3) + 16"
  then have "j < n" using assms(2) by simp
  then show "b j = b' j" using assms(1) by (simp add: agree_def)
qed

lemma u48LE_at_cong:
  assumes "\<And>j. j < 8 \<Longrightarrow> b' (k + j) = b (k + j)"
  shows "u48LE_at b' k = u48LE_at b k"
proof -
  have "map b' [k ..< k + 8] = map b [k ..< k + 8]"
  proof (rule map_cong [OF refl])
    fix x assume "x \<in> set [k ..< k + 8]"
    then have "x - k < 8" and "x = k + (x - k)" by auto
    then show "b' x = b x" using assms [of "x - k"] by simp
  qed
  then show ?thesis unfolding u48LE_at_def slice8_def by (rule arg_cong)
qed

lemma same_node_u48:
  assumes "same_node b b'" and "k + 8 \<le> 16 * unat (b 3) + 16"
  shows "u48LE_at b' k = u48LE_at b k"
proof (rule u48LE_at_cong)
  fix j :: nat assume "j < 8"
  then have "k + j < 16 * unat (b 3) + 16" using assms(2) by simp
  then show "b' (k + j) = b (k + j)" by (rule same_nodeD [OF assms(1)])
qed

lemma same_node_fields:
  assumes "same_node b b'"
  shows "arity b' = arity b" and "codec b' = codec b" and "version b' = version b"
    and "cPtrMax b' = cPtrMax b" and "dPtrMax b' = dPtrMax b"
proof -
  note a = same_node_arity_byte [OF assms]
  show "arity b' = arity b" by (simp add: arity_def a)
  show "codec b' = codec b" unfolding codec_def a by (rule same_nodeD [OF assms]) simp
  show "version b' = version b" unfolding version_def a by (rule same_nodeD [OF assms]) simp
  show "cPtrMax b' = cPtrMax b" unfolding cPtrMax_def a by (rule same_node_u48 [OF assms]) simp
  show "dPtrMax b' = dPtrMax b" unfolding dPtrMax_def a by (rule same_node_u48 [OF assms]) simp
qed

lemma same_node_DPtr:
  assumes "same_node b b'" and "i \<le> arity b"
  shows "DPtr b' i = DPtr b i" and "dOff b' i db = dOff b i db"
proof -
  have "i \<noteq> 0 \<Longrightarrow> u48LE_at b' (8 * i) = u48LE_at b (8 * i)"
    using assms(2) by (intro same_node_u48 [OF assms(1)]) (simp add: arity_def)
  then show "DPtr b' i = DPtr b i" and "dOff b' i db = dOff b i db"
    by (simp_all add: DPtr_def dOff_def)
qed

lemma same_node_slot:
  assumes "same_node b b'" and "i < arity b"
  shows "dSize b' i = dSize b i" and "tTag b' i = tTag b i" and "isLeaf b' i = isLeaf b i"
    and "sTag b' i = sTag b i" and "cLen b' i = cLen b i" and "cOff b' i cb = cOff b i cb"
    and "CPtr b' i = CPtr b i"
proof -
  note a = same_node_arity_byte [OF assms(1)]
  have i: "i < unat (b 3)" using assms(2) by (simp add: arity_def)
  have u: "\<And>k. k + 8 \<le> 16 * unat (b 3) + 16 \<Longrightarrow> u48LE_at b' k = u48LE_at b k"
    by (rule same_node_u48 [OF assms(1)])
  have n: "\<And>j. j < 16 * unat (b 3) + 16 \<Longrightarrow> b' j = b j"
    by (rule same_nodeD [OF assms(1)])
  show "dSize b' i = dSize b i" using i by (simp add: dSize_def u)
  show "tTag b' i = tTag b i" using i by (simp add: tTag_def n)
  show "isLeaf b' i = isLeaf b i" using i by (simp add: isLeaf_def n)
  show "sTag b' i = sTag b i" using i by (simp add: sTag_def a n)
  show "cLen b' i = cLen b i" using i by (simp add: cLen_def a n)
  show "cOff b' i cb = cOff b i cb" using i by (simp add: cOff_def a u)
  show "CPtr b' i = CPtr b i" using i by (simp add: CPtr_def arity_def a u)
qed

lemma same_node_cOffRange:
  assumes "same_node b b'"
  shows "cOffRange b' i cb = cOffRange b i cb"
proof (cases "i < arity b")
  case True
  then show ?thesis
    using same_node_slot [OF assms True] same_node_fields [OF assms]
    by (simp add: cOffRange_def)
next
  case False
  then show ?thesis
    using same_node_fields [OF assms] by (simp add: cOffRange_def)
qed

lemma same_node_chunk:
  assumes "same_node b b'" and "i < arity b"
  shows "chunk b' i cb db = chunk b i cb db"
  using same_node_slot [OF assms] same_node_fields [OF assms(1)]
    same_node_DPtr(2) [OF assms(1), of i db] same_node_DPtr(2) [OF assms(1), of "i + 1" db]
    same_node_cOffRange [OF assms(1)] assms(2)
  by (simp add: chunk_def dOffRange_def)

lemma same_node_childCBias:
  assumes "same_node b b'" and "i < arity b"
  shows "childCBias_of b' i cb = childCBias_of b i cb"
proof -
  have s: "sTag b' i = sTag b i" and a: "arity b' = arity b"
    using same_node_slot [OF assms] same_node_fields [OF assms(1)] by simp_all
  show ?thesis
  proof (cases "unat (sTag b i) < arity b")
    case True
    then show ?thesis
      using same_node_slot(6) [OF assms(1) True] s a by (simp add: childCBias_of_def)
  next
    case False
    then show ?thesis using s a by (simp add: childCBias_of_def)
  qed
qed

lemma same_node_fcc_from:
  "same_node b b' \<Longrightarrow> findChunkContaining_from b' i d db = findChunkContaining_from b i d db"
proof (induction b i d db rule: findChunkContaining_from.induct)
  case (1 b i d db)
  note sn = "1.prems"
  have a: "arity b' = arity b" using same_node_fields [OF sn] by simp
  show ?case
  proof (cases "i < arity b")
    case False
    then show ?thesis
      using a by (simp add: findChunkContaining_from.simps [of b i] findChunkContaining_from.simps [of b' i])
  next
    case True
    then have o: "dOff b' (i + 1) db = dOff b (i + 1) db"
      by (intro same_node_DPtr(2) [OF sn]) simp
    show ?thesis
    proof (cases "d < dOff b (i + 1) db")
      case lt: True
      then show ?thesis
        using a o True
        by (simp add: findChunkContaining_from.simps [of b i] findChunkContaining_from.simps [of b' i])
    next
      case ge: False
      then have "findChunkContaining_from b' (i + 1) d db = findChunkContaining_from b (i + 1) d db"
        using "1.IH" True sn by simp
      then show ?thesis
        using a o True ge
        by (simp add: findChunkContaining_from.simps [of b i] findChunkContaining_from.simps [of b' i])
    qed
  qed
qed

lemma same_node_fcc:
  "same_node b b' \<Longrightarrow> findChunkContaining b' d db = findChunkContaining b d db"
  by (simp add: findChunkContaining_def same_node_fcc_from)

lemma same_node_crc16:
  assumes "same_node b b'"
  shows "crc16 b' = crc16 b"
proof -
  have a: "arity b' = arity b" using same_node_fields [OF assms] by simp
  have "map b' [6 ..< 16 * arity b + 16] = map b [6 ..< 16 * arity b + 16]"
  proof (rule map_cong [OF refl])
    fix x assume "x \<in> set [6 ..< 16 * arity b + 16]"
    then have "x < 16 * unat (b 3) + 16" by (simp add: arity_def)
    then show "b' x = b x" by (rule same_nodeD [OF assms])
  qed
  then have "ChecksumIEEE (map b' [6 ..< 16 * arity b + 16]) =
             ChecksumIEEE (map b [6 ..< 16 * arity b + 16])"
    by (rule arg_cong)
  then show ?thesis unfolding crc16_def a by (simp add: Let_def)
qed

lemma same_node_invariants:
  assumes "same_node b b'" and "node_invariants b"
  shows "node_invariants b'"
proof -
  note f = same_node_fields [OF assms(1)]
  note a = same_node_arity_byte [OF assms(1)]
  have n: "\<And>j. j < 16 * unat (b 3) + 16 \<Longrightarrow> b' j = b j"
    by (rule same_nodeD [OF assms(1)])
  have inv: "b 0 = 0x72" "b 1 = 0xC3" "b 2 = 0x63" "b 3 \<noteq> 0" "b (16 * arity b + 15) = b 3"
    "\<And>i. i < arity b \<Longrightarrow> b (8 * i + 6) = 0 \<and> \<not> (0xC0 \<le> tTag b i \<and> tTag b i < 0xFE)"
    "b (8 * arity b + 6) = 0" "codec b \<noteq> 0" "version b \<noteq> 0"
    "\<And>i. i < arity b \<Longrightarrow> DPtr b i \<le> DPtr b (i + 1)"
    "\<And>i. i < arity b \<Longrightarrow> CPtr b i \<le> cPtrMax b"
    "stored_checksum b = crc16 b"
    using assms(2) by (simp_all add: node_invariants_def)
  have "b' 0 = 0x72" "b' 1 = 0xC3" "b' 2 = 0x63" "b' 3 \<noteq> 0"
    using inv(1-4) n [of 0] n [of 1] n [of 2] n [of 3] by simp_all
  moreover have "b' (16 * arity b' + 15) = b' 3"
    using inv(5) a n [of "16 * arity b + 15"] by (simp add: arity_def)
  moreover have "\<forall>i < arity b'. b' (8 * i + 6) = 0 \<and> \<not> (0xC0 \<le> tTag b' i \<and> tTag b' i < 0xFE)"
  proof (intro allI impI)
    fix i assume "i < arity b'"
    then have i: "i < arity b" using f by simp
    then have "b' (8 * i + 6) = b (8 * i + 6)" by (intro n) (simp add: arity_def)
    then show "b' (8 * i + 6) = 0 \<and> \<not> (0xC0 \<le> tTag b' i \<and> tTag b' i < 0xFE)"
      using inv(6) [OF i] same_node_slot(2) [OF assms(1) i] by simp
  qed
  moreover have "b' (8 * arity b' + 6) = 0"
    using inv(7) n [of "8 * arity b + 6"] f by (simp add: arity_def)
  moreover have "codec b' \<noteq> 0" "version b' \<noteq> 0" using inv(8,9) f by simp_all
  moreover have "\<forall>i < arity b'. DPtr b' i \<le> DPtr b' (i + 1)"
  proof (intro allI impI)
    fix i assume "i < arity b'"
    then have i: "i < arity b" using f by simp
    then show "DPtr b' i \<le> DPtr b' (i + 1)"
      using inv(10) [OF i] same_node_DPtr(1) [OF assms(1), of i]
        same_node_DPtr(1) [OF assms(1), of "i + 1"] by simp
  qed
  moreover have "\<forall>i < arity b'. CPtr b' i \<le> cPtrMax b'"
  proof (intro allI impI)
    fix i assume "i < arity b'"
    then have i: "i < arity b" using f by simp
    then show "CPtr b' i \<le> cPtrMax b'"
      using inv(11) [OF i] same_node_slot(7) [OF assms(1) i] f by simp
  qed
  moreover have "stored_checksum b' = crc16 b'"
    using inv(12) same_node_crc16 [OF assms(1)] n [of 4] n [of 5]
    by (simp add: stored_checksum_def)
  ultimately show ?thesis unfolding node_invariants_def by blast
qed

lemma same_node_valid: "same_node b b' \<Longrightarrow> valid b' = valid b"
  unfolding valid_iff
  using same_node_invariants [of b b'] same_node_invariants [of b' b] same_node_sym [of b b']
  by blast

section \<open>Loading a node\<close>

lemma readAt_ok:
  assumes "0 \<le> off" and "nat off + n \<le> length f"
  shows "readAt f p n off = (None, \<lambda>j. if j < n then f ! (nat off + j) else p j)"
proof -
  have "n \<le> length (drop (nat off) f)" using assms(2) by simp
  moreover have "\<And>j. j < n \<Longrightarrow> drop (nat off) f ! j = f ! (nat off + j)"
    using assms(2) by simp
  ultimately show ?thesis
    using assms(1) by (auto simp: readAt_def Let_def intro!: ext)
qed

lemma readAt_short:
  assumes "0 \<le> off" and "\<not> nat off + n \<le> length f" and "0 < n"
  shows "fst (readAt f p n off) \<noteq> None"
proof -
  have "\<not> n \<le> length (drop (nat off) f)" using assms(2,3) by simp
  then show ?thesis using assms(1) by (simp add: readAt_def Let_def)
qed

lemma readAt_neg: "off < 0 \<Longrightarrow> fst (readAt f p n off) \<noteq> None"
  by (simp add: readAt_def)

lemma load_ok:
  assumes "a \<noteq> 0" and "0 \<le> off" and "nat off + nodeSize a \<le> length (contents r)"
  shows "load r off a =
    (None, r\<lparr>currNode := \<lambda>j. if j < nodeSize a then contents r ! (nat off + j) else currNode r j\<rparr>)"
  using assms(1) readAt_ok [OF assms(2,3), of "currNode r"] by (simp add: load_def)

lemma load_NoneD:
  assumes "load r off a = (None, r')"
  shows "a \<noteq> 0" and "0 \<le> off" and "nat off + nodeSize a \<le> length (contents r)"
    and "r' = r\<lparr>currNode := \<lambda>j. if j < nodeSize a then contents r ! (nat off + j) else currNode r j\<rparr>"
proof -
  show a: "a \<noteq> 0" using assms by (auto simp: load_def)
  have rd: "fst (readAt (contents r) (currNode r) (nodeSize a) off) = None"
    using assms a by (auto simp: load_def split: prod.splits option.splits)
  show o: "0 \<le> off" using rd readAt_neg [of off] by (cases "0 \<le> off") auto
  show l: "nat off + nodeSize a \<le> length (contents r)"
  proof (rule ccontr)
    assume short: "\<not> nat off + nodeSize a \<le> length (contents r)"
    have pos: "0 < nodeSize a" by (simp add: nodeSize_def)
    have "fst (readAt (contents r) (currNode r) (nodeSize a) off) \<noteq> None"
      using o short pos by (rule readAt_short)
    then show False using rd by simp
  qed
  show "r' = r\<lparr>currNode := \<lambda>j. if j < nodeSize a then contents r ! (nat off + j) else currNode r j\<rparr>"
    using assms load_ok [OF a o l] by simp
qed

lemma node_at_nth: "off + j < length f \<Longrightarrow> node_at f off j = f ! (off + j)"
  by (simp add: node_at_def)

lemma loaded_same_node:
  assumes "nat off + nodeSize a \<le> length f" and "f ! (nat off + 3) = a"
  shows "same_node (node_at f (nat off)) (\<lambda>j. if j < nodeSize a then f ! (nat off + j) else p j)"
proof -
  have a3: "node_at f (nat off) 3 = a"
    using assms by (simp add: node_at_def nodeSize_def)
  show ?thesis
    unfolding same_node_def agree_def a3
    using assms(1) by (auto simp: node_at_def nodeSize_def)
qed


lemma loadAndValidate_None_iff:
  "loadAndValidate r off pc pv pm cb ds = (None, r') \<longleftrightarrow>
     child_ok (contents r) (CompressedSize r) off pc pv pm cb ds \<and>
     r' = r\<lparr>currNode := \<lambda>j. if j < nodeSize (contents r ! (nat off + 3))
                              then contents r ! (nat off + j) else currNode r j\<rparr>"
proof -
  let ?f = "contents r" and ?cs = "CompressedSize r" and ?p = "currNode r"
  let ?lv = "loadAndValidate r off pc pv pm cb ds"
  let ?ok = "child_ok ?f ?cs off pc pv pm cb ds"
  show ?thesis
  proof (cases "0 \<le> off \<and> off \<le> ?cs - 4")
    case False
    then have "fst ?lv \<noteq> None" by (auto simp: loadAndValidate_def)
    moreover have "\<not> ?ok" using False by (auto simp: child_ok_def)
    ultimately show ?thesis by auto
  next
    case rng: True
    show ?thesis
    proof (cases "nat off + 4 \<le> length ?f")
      case False
      then have "fst (readAt ?f ?p 4 off) \<noteq> None"
        using rng by (intro readAt_short) simp_all
      then have "fst ?lv \<noteq> None"
        using rng by (auto simp: loadAndValidate_def split: prod.splits option.splits)
      moreover have "\<not> ?ok" using False by (auto simp: child_ok_def)
      ultimately show ?thesis by auto
    next
      case len4: True
      let ?hdr = "\<lambda>j. if j < 4 then ?f ! (nat off + j) else ?p j"
      let ?a = "?f ! (nat off + 3)"
      let ?b = "node_at ?f (nat off)"
      have rd: "readAt ?f ?p 4 off = (None, ?hdr)"
        using rng len4 by (intro readAt_ok) simp_all
      have b3: "?b 3 = ?a" using len4 by (simp add: node_at_def)
      let ?r1 = "r\<lparr>currNode := ?hdr\<rparr>"
      have step1: "?lv =
        (if ?a = 0 then (Some ErrInvalidIndexNode, ?r1\<lparr>err := Some ErrInvalidIndexNode\<rparr>)
         else if ?cs < int (nodeSize ?a) \<or> ?cs - int (nodeSize ?a) < off
         then (Some ErrInvalidIndexNode, ?r1\<lparr>err := Some ErrInvalidIndexNode\<rparr>)
         else (case load ?r1 off ?a of
                 (Some e, r2) \<Rightarrow> (Some e, r2)
               | (None, r2) \<Rightarrow>
                   if \<not> valid (currNode r2)
                   then (Some ErrInvalidIndexNode, r2\<lparr>err := Some ErrInvalidIndexNode\<rparr>)
                   else if \<not> bitwiseSubset pc (codec (currNode r2)) \<or>
                           pv < version (currNode r2) \<or>
                           pm < i64 (cb + cPtrMax (currNode r2)) \<or>
                           ds \<noteq> dPtrMax (currNode r2)
                   then (Some ErrInvalidIndexNode, r2\<lparr>err := Some ErrInvalidIndexNode\<rparr>)
                   else (None, r2)))"
        using rng rd
        by (auto simp: loadAndValidate_def Let_def split: prod.splits option.splits)
      show ?thesis
      proof (cases "?a \<noteq> 0 \<and> int (nodeSize ?a) \<le> ?cs \<and> off \<le> ?cs - int (nodeSize ?a)")
        case False
        have "fst ?lv \<noteq> None"
        proof (cases "?a = 0")
          case True
          then show ?thesis unfolding step1 by simp
        next
          case nz: False
          then have "?cs < int (nodeSize ?a) \<or> ?cs - int (nodeSize ?a) < off"
            using False by linarith
          then show ?thesis unfolding step1 using nz by simp
        qed
        moreover have "\<not> ?ok" using False b3 by (auto simp: child_ok_def Let_def)
        ultimately show ?thesis by auto
      next
        case fits: True
        then have step2: "?lv =
          (case load ?r1 off ?a of
                 (Some e, r2) \<Rightarrow> (Some e, r2)
               | (None, r2) \<Rightarrow>
                   if \<not> valid (currNode r2)
                   then (Some ErrInvalidIndexNode, r2\<lparr>err := Some ErrInvalidIndexNode\<rparr>)
                   else if \<not> bitwiseSubset pc (codec (currNode r2)) \<or>
                           pv < version (currNode r2) \<or>
                           pm < i64 (cb + cPtrMax (currNode r2)) \<or>
                           ds \<noteq> dPtrMax (currNode r2)
                   then (Some ErrInvalidIndexNode, r2\<lparr>err := Some ErrInvalidIndexNode\<rparr>)
                   else (None, r2))"
          unfolding step1 by auto
        show ?thesis
        proof (cases "nat off + nodeSize ?a \<le> length ?f")
          case False
          have "fst (load ?r1 off ?a) \<noteq> None"
          proof
            assume "fst (load ?r1 off ?a) = None"
            then have "load ?r1 off ?a = (None, snd (load ?r1 off ?a))"
              by (simp add: prod_eq_iff)
            from load_NoneD(3) [OF this] show False
              using False by (simp add: contents_def)
          qed
          then have "fst ?lv \<noteq> None"
            unfolding step2 by (auto split: prod.splits option.splits)
          moreover have "\<not> ?ok" using False b3 by (auto simp: child_ok_def Let_def)
          ultimately show ?thesis by auto
        next
          case lenN: True
          let ?b2 = "\<lambda>j. if j < nodeSize ?a then ?f ! (nat off + j) else ?p j"
          have c1: "contents ?r1 = ?f" by (simp add: contents_def)
          have "load ?r1 off ?a =
              (None, ?r1\<lparr>currNode := \<lambda>j. if j < nodeSize ?a then contents ?r1 ! (nat off + j)
                                          else currNode ?r1 j\<rparr>)"
            using fits rng lenN by (intro load_ok) (simp_all add: c1)
          moreover have "(\<lambda>j. if j < nodeSize ?a then contents ?r1 ! (nat off + j)
                                else currNode ?r1 j) = ?b2"
            by (rule ext) (auto simp: c1 nodeSize_def)
          ultimately have ld: "load ?r1 off ?a = (None, r\<lparr>currNode := ?b2\<rparr>)"
            by simp
          have sn: "same_node ?b ?b2"
            using lenN by (intro loaded_same_node) simp_all
          note f = same_node_fields [OF sn] same_node_valid [OF sn]
          have step3: "?lv =
            (if valid ?b \<and> bitwiseSubset pc (codec ?b) \<and> version ?b \<le> pv \<and>
                i64 (cb + cPtrMax ?b) \<le> pm \<and> ds = dPtrMax ?b
             then (None, r\<lparr>currNode := ?b2\<rparr>)
             else (Some ErrInvalidIndexNode,
                   r\<lparr>currNode := ?b2, err := Some ErrInvalidIndexNode\<rparr>))"
            unfolding step2 ld using f by (auto simp: not_less)
          have ok_iff: "?ok \<longleftrightarrow> valid ?b \<and> bitwiseSubset pc (codec ?b) \<and> version ?b \<le> pv \<and>
                i64 (cb + cPtrMax ?b) \<le> pm \<and> ds = dPtrMax ?b"
            using rng len4 fits lenN b3 by (auto simp: child_ok_def Let_def)
          show ?thesis unfolding step3 ok_iff by auto
        qed
      qed
    qed
  qed
qed

section \<open>One step of the descent\<close>

lemma loadAndValidate_NoneD:
  assumes "loadAndValidate r off pc pv pm cb ds = (None, r')"
  shows "child_ok (contents r) (CompressedSize r) off pc pv pm cb ds"
    and "same_node (node_at (contents r) (nat off)) (currNode r')"
    and "valid (currNode r')" and "dPtrMax (currNode r') = ds"
    and "contents r' = contents r" and "CompressedSize r' = CompressedSize r"
    and "seekPosition r' = seekPosition r" and "err r' = err r"
proof -
  let ?f = "contents r"
  let ?b2 = "\<lambda>j. if j < nodeSize (?f ! (nat off + 3)) then ?f ! (nat off + j) else currNode r j"
  have ok: "child_ok ?f (CompressedSize r) off pc pv pm cb ds" and r': "r' = r\<lparr>currNode := ?b2\<rparr>"
    using assms by (simp_all add: loadAndValidate_None_iff)
  show "child_ok ?f (CompressedSize r) off pc pv pm cb ds" by (rule ok)
  have b3: "node_at ?f (nat off) 3 = ?f ! (nat off + 3)"
    using ok by (simp add: child_ok_def node_at_def)
  have len: "nat off + nodeSize (?f ! (nat off + 3)) \<le> length ?f"
    and v: "valid (node_at ?f (nat off))" and d: "ds = dPtrMax (node_at ?f (nat off))"
    using ok unfolding child_ok_def Let_def b3 by simp_all
  have sn: "same_node (node_at ?f (nat off)) ?b2"
    using len by (intro loaded_same_node) simp_all
  then show "same_node (node_at ?f (nat off)) (currNode r')" by (simp add: r')
  show "valid (currNode r')" using same_node_valid [OF sn] v by (simp add: r')
  show "dPtrMax (currNode r') = ds" using same_node_fields(5) [OF sn] d by (simp add: r')
  show "contents r' = contents r" "CompressedSize r' = CompressedSize r"
    "seekPosition r' = seekPosition r" "err r' = err r"
    by (simp_all add: r' contents_def)
qed

lemma child_ok_loadAndValidate:
  assumes "child_ok (contents r) (CompressedSize r) off pc pv pm cb ds"
  shows "\<exists>r'. loadAndValidate r off pc pv pm cb ds = (None, r')"
  using assms by (simp add: loadAndValidate_None_iff)

lemma loadAndValidate_error_kind:
  assumes "loadAndValidate r off pc pv pm cb ds = (Some e, r')"
    and "CompressedSize r = int (length (contents r))"
  shows "e = ErrInvalidIndexNode"
proof (cases "0 \<le> off \<and> off \<le> CompressedSize r - 4")
  case False
  then show ?thesis using assms(1) by (auto simp: loadAndValidate_def)
next
  case rng: True
  let ?f = "contents r"
  let ?hdr = "\<lambda>j. if j < 4 then ?f ! (nat off + j) else currNode r j"
  have "nat off + 4 \<le> length ?f"
    using rng assms(2) by linarith
  then have rd: "readAt ?f (currNode r) 4 off = (None, ?hdr)"
    using rng by (intro readAt_ok) simp_all
  let ?r1 = "r\<lparr>currNode := ?hdr\<rparr>"
  let ?a = "?hdr 3"
  show ?thesis
  proof (cases "?a \<noteq> 0 \<and> int (nodeSize ?a) \<le> CompressedSize r \<and>
      off \<le> CompressedSize r - int (nodeSize ?a)")
    case False
    then show ?thesis
      using assms(1) rng rd
      by (auto simp: loadAndValidate_def Let_def split: if_splits)
  next
    case fits: True
    have c1: "contents ?r1 = ?f" by (simp add: contents_def)
    have "nat off + nodeSize ?a \<le> length ?f"
      using fits rng assms(2) by linarith
    then have "nat off + nodeSize ?a \<le> length (contents ?r1)"
      unfolding c1 .
    then obtain r2 where ld: "load ?r1 off ?a = (None, r2)"
      using load_ok [of ?a off ?r1] fits rng by blast
    show ?thesis
      using assms(1) rng rd fits ld
      by (auto simp: loadAndValidate_def Let_def split: if_splits)
  qed
qed

lemma DPtr_nonneg: "0 \<le> DPtr b i"
  by (simp add: DPtr_def u48LE_at_nonneg)

lemma DPtr_less: "DPtr b i < 281474976710656"
  using u48LE_at_less [of b "8 * i"] by (simp add: DPtr_def)

lemma chain_mono:
  fixes g :: "nat \<Rightarrow> int"
  assumes "\<And>i. i < n \<Longrightarrow> g i \<le> g (i + 1)"
  shows "i \<le> j \<Longrightarrow> j \<le> n \<Longrightarrow> g i \<le> g j"
proof (induction j)
  case 0
  then show ?case by simp
next
  case (Suc j)
  show ?case
  proof (cases "i = Suc j")
    case True
    then show ?thesis by simp
  next
    case False
    then have "i \<le> j" and "j < n" using Suc.prems by simp_all
    then have "g i \<le> g j" and "g j \<le> g (j + 1)" using Suc.IH assms by simp_all
    then show ?thesis by simp
  qed
qed

lemma valid_DPtr_mono:
  assumes "valid b" and "i \<le> j" and "j \<le> arity b"
  shows "DPtr b i \<le> DPtr b j"
proof -
  have "\<And>i. i < arity b \<Longrightarrow> DPtr b i \<le> DPtr b (i + 1)"
    using assms(1) by (simp add: valid_iff node_invariants_def)
  then show ?thesis using assms(2,3) by (rule chain_mono)
qed

lemma DPtr_arity: "0 < arity b \<Longrightarrow> DPtr b (arity b) = dPtrMax b"
  by (simp add: DPtr_def dPtrMax_def arity_def)

lemma valid_DPtr_le_max: "valid b \<Longrightarrow> i \<le> arity b \<Longrightarrow> DPtr b i \<le> dPtrMax b"
  using valid_DPtr_mono [of b i "arity b"] DPtr_arity [of b] valid_arity_pos [of b] by simp

lemma dSize_DPtr: "dSize b i = DPtr b (i + 1) - DPtr b i"
  by (simp add: dSize_def DPtr_def Let_def add.commute)

lemma dOff_DPtr:
  assumes "0 \<le> db" and "db < 2 ^ 62"
  shows "dOff b i db = db + DPtr b i"
proof (cases "i = 0")
  case True
  then show ?thesis by (simp add: dOff_def DPtr_def)
next
  case False
  have "0 \<le> u48LE_at b (8 * i)" and "u48LE_at b (8 * i) < 281474976710656"
    by (rule u48LE_at_nonneg, rule u48LE_at_less)
  then have "i64 (db + u48LE_at b (8 * i)) = db + u48LE_at b (8 * i)"
    using assms by (intro i64_id) simp_all
  then show ?thesis using False by (simp add: dOff_def DPtr_def)
qed

lemma dPtrMax_nonneg: "0 \<le> dPtrMax b"
  by (simp add: dPtrMax_def u48LE_at_nonneg)

lemma node_ok_dOff:
  assumes "node_ok D b db"
  shows "dOff b i db = db + DPtr b i"
  using assms dPtrMax_nonneg [of b] by (intro dOff_DPtr) (simp_all add: node_ok_def)

lemma node_ok_dOff_mono:
  assumes "node_ok D b db" and "i \<le> j" and "j \<le> arity b"
  shows "dOff b i db \<le> dOff b j db"
  unfolding node_ok_dOff [OF assms(1)]
  using valid_DPtr_mono [of b i j] assms by (simp add: node_ok_def)

lemma node_ok_dOff_bounds:
  assumes "node_ok D b db" and "i \<le> arity b"
  shows "db \<le> dOff b i db" and "dOff b i db \<le> db + dPtrMax b"
  unfolding node_ok_dOff [OF assms(1)]
  using valid_DPtr_le_max [of b i] DPtr_nonneg [of b i] assms
  by (simp_all add: node_ok_def)

lemma descend_NoneD:
  assumes "descend r i cb = (None, r1)"
  shows "valid (currNode r1)" and "dPtrMax (currNode r1) = dSize (currNode r) i"
    and "contents r1 = contents r" and "CompressedSize r1 = CompressedSize r"
    and "seekPosition r1 = seekPosition r" and "err r1 = err r"
    and "same_node (node_at (contents r) (nat (cOff (currNode r) i cb))) (currNode r1)"
  using loadAndValidate_NoneD [OF assms [unfolded descend_def]] by simp_all

lemma descend_node_ok:
  assumes "node_ok D (currNode r) db" and "i < arity (currNode r)"
    and "descend r i cb = (None, r1)"
  shows "node_ok D (currNode r1) (dOff (currNode r) i db)"
    and "dOff (currNode r) i db + dPtrMax (currNode r1) = dOff (currNode r) (i + 1) db"
proof -
  let ?b = "currNode r"
  note d = descend_NoneD [OF assms(3)]
  have o: "\<And>j. dOff ?b j db = db + DPtr ?b j" by (rule node_ok_dOff [OF assms(1)])
  show e: "dOff ?b i db + dPtrMax (currNode r1) = dOff ?b (i + 1) db"
    by (simp add: o d(2) dSize_DPtr)
  have "dOff ?b (i + 1) db \<le> db + dPtrMax ?b"
    using assms(2) by (intro node_ok_dOff_bounds [OF assms(1)]) simp
  moreover have "db \<le> dOff ?b i db"
    using assms(2) by (intro node_ok_dOff_bounds [OF assms(1)]) simp
  ultimately show "node_ok D (currNode r1) (dOff ?b i db)"
    using assms(1) d(1) e by (simp add: node_ok_def)
qed

lemma descend_cong:
  assumes "same_view r r'" and "i < arity (currNode r)" and "descend r i cb = (None, r1)"
  shows "\<exists>r1'. descend r' i cb = (None, r1') \<and> same_view r1 r1'"
proof -
  have sn: "same_node (currNode r) (currNode r')"
    and c: "contents r' = contents r" and cs: "CompressedSize r' = CompressedSize r"
    using assms(1) by (simp_all add: same_view_def)
  note s = same_node_slot [OF sn assms(2)] same_node_fields [OF sn]
    same_node_childCBias [OF sn assms(2)]
  let ?off = "cOff (currNode r) i cb"
  have args: "descend r' i cb =
      loadAndValidate r' ?off (codec (currNode r)) (version (currNode r))
       (i64 (cb + cPtrMax (currNode r))) (childCBias_of (currNode r) i cb) (dSize (currNode r) i)"
    by (simp add: descend_def s)
  have "child_ok (contents r) (CompressedSize r) ?off (codec (currNode r)) (version (currNode r))
       (i64 (cb + cPtrMax (currNode r))) (childCBias_of (currNode r) i cb) (dSize (currNode r) i)"
    using loadAndValidate_NoneD(1) [OF assms(3) [unfolded descend_def]] .
  then have "child_ok (contents r') (CompressedSize r') ?off (codec (currNode r))
       (version (currNode r)) (i64 (cb + cPtrMax (currNode r)))
       (childCBias_of (currNode r) i cb) (dSize (currNode r) i)"
    by (simp add: c cs)
  from child_ok_loadAndValidate [OF this]
  obtain r1' where lv: "descend r' i cb = (None, r1')"
    unfolding args by blast
  have a: "same_node (node_at (contents r) (nat ?off)) (currNode r1)"
    by (rule descend_NoneD(7) [OF assms(3)])
  have b: "same_node (node_at (contents r) (nat ?off)) (currNode r1')"
    using loadAndValidate_NoneD(2) [OF lv [unfolded args]] c by simp
  have "same_node (currNode r1) (currNode r1')"
    using same_node_trans [OF same_node_sym [OF a] b] .
  moreover have "contents r1' = contents r1" "CompressedSize r1' = CompressedSize r1"
    using descend_NoneD(3,4) [OF assms(3)] descend_NoneD(3,4) [OF lv] c cs by simp_all
  ultimately show ?thesis using lv by (auto simp: same_view_def)
qed

section \<open>Where the descent ends\<close>

lemma same_view_refl: "same_view r r"
  by (simp add: same_view_def same_node_refl)

lemma same_node_node_ok: "same_node b b' \<Longrightarrow> node_ok D b db \<Longrightarrow> node_ok D b' db"
  using same_node_valid [of b b'] same_node_fields(5) [of b b'] by (simp add: node_ok_def)

lemma walk_seek:
  "walk r cb db y \<Longrightarrow> y = Return (e, r') \<Longrightarrow> seekPosition r' = seekPosition r"
proof (induction arbitrary: e r' rule: walk.induct)
  case (panic r dBias cBias)
  then show ?case by simp
next
  case (leaf r dBias i cBias)
  then show ?case by auto
next
  case (fail r dBias i cBias e1 r1)
  then show ?case by (auto dest: descend_seek)
next
  case (branch r dBias i cBias r1 y)
  from branch.hyps(3) have "seekPosition r1 = seekPosition r" by (rule descend_seek)
  with branch.IH [OF branch.prems] show ?case by simp
qed

lemma walk_contains:
  "walk r cb db y \<Longrightarrow> y = Return (None, r') \<Longrightarrow> db \<le> seekPosition r \<Longrightarrow>
     nextChunk r' < arity (currNode r') \<and>
     dOff (currNode r') (nextChunk r') (currNodeDBias r') \<le> seekPosition r \<and>
     seekPosition r < dOff (currNode r') (nextChunk r' + 1) (currNodeDBias r')"
proof (induction arbitrary: r' rule: walk.induct)
  case (panic r dBias cBias)
  then show ?case by simp
next
  case (leaf r dBias i cBias)
  then show ?case
    using fcc_SomeD(1,2) [OF leaf.hyps(1)] fcc_contains [OF leaf.hyps(1)] by auto
next
  case (fail r dBias i cBias e1 r1)
  then show ?case by simp
next
  case (branch r dBias i cBias r1 y)
  have s: "seekPosition r1 = seekPosition r" using branch.hyps(3) by (rule descend_seek)
  have "dOff (currNode r) i dBias \<le> seekPosition r"
    using branch.hyps(1) branch.prems(2) by (rule fcc_contains)
  then show ?case using branch.IH [OF branch.prems(1)] s by simp
qed

lemma walk_leaf_ok:
  "walk r cb db y \<Longrightarrow> y = Return (None, r') \<Longrightarrow> node_ok D (currNode r) db \<Longrightarrow>
     node_ok D (currNode r') (currNodeDBias r') \<and> db \<le> currNodeDBias r' \<and>
     currNodeDBias r' + dPtrMax (currNode r') \<le> db + dPtrMax (currNode r)"
proof (induction arbitrary: r' rule: walk.induct)
  case (panic r dBias cBias)
  then show ?case by simp
next
  case (leaf r dBias i cBias)
  then show ?case by auto
next
  case (fail r dBias i cBias e1 r1)
  then show ?case by simp
next
  case (branch r dBias i cBias r1 y)
  let ?b = "currNode r"
  have i: "i < arity ?b" using branch.hyps(1) by (rule fcc_SomeD(1))
  note d = descend_node_ok [OF branch.prems(2) i branch.hyps(3)]
  have lo: "dBias \<le> dOff ?b i dBias"
    using i by (intro node_ok_dOff_bounds [OF branch.prems(2)]) simp
  have hi: "dOff ?b (i + 1) dBias \<le> dBias + dPtrMax ?b"
    using i by (intro node_ok_dOff_bounds [OF branch.prems(2)]) simp
  from branch.IH [OF branch.prems(1) d(1)] show ?case
    using lo hi d(2) by simp
qed

lemma walk_aligned_begin:
  "walk r cb db y \<Longrightarrow> y = Return (None, r') \<Longrightarrow> node_ok D (currNode r) db \<Longrightarrow>
     seekPosition r = db \<Longrightarrow>
     dOff (currNode r') (nextChunk r') (currNodeDBias r') = db"
proof (induction arbitrary: r' rule: walk.induct)
  case (panic r dBias cBias)
  then show ?case by simp
next
  case (leaf r dBias i cBias)
  have i: "i < arity (currNode r)" using leaf.hyps(1) by (rule fcc_SomeD(1))
  have "dOff (currNode r) i dBias \<le> dBias"
    using fcc_contains [OF leaf.hyps(1)] leaf.prems(3) by simp
  moreover have "dBias \<le> dOff (currNode r) i dBias"
    using i by (intro node_ok_dOff_bounds [OF leaf.prems(2)]) simp
  ultimately show ?case using leaf.prems(1) by auto
next
  case (fail r dBias i cBias e1 r1)
  then show ?case by simp
next
  case (branch r dBias i cBias r1 y)
  let ?b = "currNode r"
  have i: "i < arity ?b" using branch.hyps(1) by (rule fcc_SomeD(1))
  have "dOff ?b i dBias \<le> dBias"
    using fcc_contains [OF branch.hyps(1)] branch.prems(3) by simp
  moreover have "dBias \<le> dOff ?b i dBias"
    using i by (intro node_ok_dOff_bounds [OF branch.prems(2)]) simp
  ultimately have eq: "dOff ?b i dBias = dBias" by simp
  have s: "seekPosition r1 = dOff ?b i dBias"
    using descend_seek [OF branch.hyps(3)] branch.prems(3) eq by simp
  note d = descend_node_ok [OF branch.prems(2) i branch.hyps(3)]
  from branch.IH [OF branch.prems(1) d(1) s] show ?case using eq by simp
qed

lemma fcc_unique:
  assumes ok: "node_ok D b db" and i: "i < arity b"
    and lo: "dOff b i db \<le> t" and hi: "t < dOff b (i + 1) db"
  shows "findChunkContaining b t db = Some i"
proof (cases "findChunkContaining b t db")
  case None
  then have "findChunkContaining_from b 0 t db = None"
    by (simp add: findChunkContaining_def)
  from fcc_from_NoneD [OF this, rule_format, of i] show ?thesis using i hi by simp
next
  case (Some j)
  note j = fcc_SomeD [OF Some]
  have "\<not> i < j" using j(3) [of i] hi by auto
  moreover have "\<not> j < i"
  proof
    assume "j < i"
    then have "dOff b (j + 1) db \<le> dOff b i db"
      using i by (intro node_ok_dOff_mono [OF ok]) simp_all
    then show False using j(2) lo by simp
  qed
  ultimately show ?thesis using Some by simp
qed

lemma descend_fun: "descend r i cb = (e, r1) \<Longrightarrow> descend r i cb = (e', r1') \<Longrightarrow> e' = e \<and> r1' = r1"
  by simp

lemma walk_Return_NoneE:
  assumes "walk r cb db (Return (None, r'))"
  obtains (at_leaf) i where "findChunkContaining (currNode r) (seekPosition r) db = Some i"
      and "isLeaf (currNode r) i"
      and "r' = r\<lparr>nextChunk := i, currNodeCBias := cb, currNodeDBias := db\<rparr>"
  | (at_branch) i r1 where "findChunkContaining (currNode r) (seekPosition r) db = Some i"
      and "\<not> isLeaf (currNode r) i" and "descend r i cb = (None, r1)"
      and "walk r1 (childCBias_of (currNode r) i cb) (dOff (currNode r) i db) (Return (None, r'))"
  using assms by (cases rule: walk.cases) auto

lemma walk_aligned_end:
  "walk r cb db y \<Longrightarrow> y = Return (None, rN) \<Longrightarrow> node_ok D (currNode r) db \<Longrightarrow>
     db \<le> seekPosition r \<Longrightarrow> same_view r rt \<Longrightarrow>
     seekPosition rt = currNodeDBias rN + dPtrMax (currNode rN) \<Longrightarrow>
     seekPosition rt < db + dPtrMax (currNode r) \<Longrightarrow>
     walk rt cb db (Return (None, rt')) \<Longrightarrow>
     dOff (currNode rt') (nextChunk rt') (currNodeDBias rt') = seekPosition rt"
proof (induction arbitrary: rN rt rt' rule: walk.induct)
  case (panic r dBias cBias)
  then show ?case by simp
next
  case (leaf r dBias i cBias)
  then show ?case by auto
next
  case (fail r dBias i cBias e1 r1)
  then show ?case by simp
next
  case (branch r dBias i cBias r1 y)
  let ?b = "currNode r" and ?bt = "currNode rt" and ?t = "seekPosition rt"
  note ok = branch.prems(2) and sv = branch.prems(4) and tN = branch.prems(5)
    and twalk = branch.prems(7) and yN = branch.prems(1) and IH = branch.IH
    and found = branch.hyps(1) and notleaf = branch.hyps(2) and desc = branch.hyps(3)
    and subwalk = branch.hyps(4) and slo = branch.prems(3)
  have sn: "same_node ?b ?bt" using sv by (simp add: same_view_def)
  have okt: "node_ok D ?bt dBias" using sn ok by (rule same_node_node_ok)
  have i: "i < arity ?b" using found by (rule fcc_SomeD(1))
  let ?db1 = "dOff ?b i dBias" and ?cb1 = "childCBias_of ?b i cBias"
  note d = descend_node_ok [OF ok i desc]
  have sub: "walk r1 ?cb1 ?db1 (Return (None, rN))"
    using subwalk yN by simp
  have C: "?db1 \<le> currNodeDBias rN"
    "currNodeDBias rN + dPtrMax (currNode rN) \<le> ?db1 + dPtrMax (currNode r1)"
    using walk_leaf_ok [OF sub refl d(1)] by simp_all
  have lo: "?db1 \<le> ?t"
    using C(1) tN dPtrMax_nonneg [of "currNode rN"] by simp
  have hi: "?t \<le> dOff ?b (i + 1) dBias"
    using C(2) tN d(2) by simp
  have dblo: "dBias \<le> ?t"
    using lo node_ok_dOff_bounds(1) [OF ok, of i] i by simp
  have fb: "findChunkContaining ?bt ?t dBias = findChunkContaining ?b ?t dBias"
    using sn by (rule same_node_fcc)
  have s1: "seekPosition r1 = seekPosition r" using desc by (rule descend_seek)
  have lo1: "?db1 \<le> seekPosition r1"
    using fcc_contains [OF found slo] s1 by simp
  show ?case
  proof (cases "?t < dOff ?b (i + 1) dBias")
    case True
    have f: "findChunkContaining ?bt ?t dBias = Some i"
      unfolding fb using ok i lo True by (rule fcc_unique)
    have nl: "\<not> isLeaf ?bt i"
      using same_node_slot(3) [OF sn i] notleaf by simp
    from twalk show ?thesis
    proof (cases rule: walk_Return_NoneE)
      case (at_leaf j)
      then show ?thesis using f nl by simp
    next
      case (at_branch j rt1)
      then have j: "j = i" using f by simp
      obtain r1' where dc: "descend rt i cBias = (None, r1')" and sv1: "same_view r1 r1'"
        using descend_cong [OF sv i desc] by blast
      have rt1: "rt1 = r1'" using at_branch(3) dc j by simp
      have eqs: "childCBias_of ?bt i cBias = ?cb1" "dOff ?bt i dBias = ?db1"
        using same_node_childCBias [OF sn i] same_node_DPtr(2) [OF sn, of i dBias] i by simp_all
      have w: "walk rt1 ?cb1 ?db1 (Return (None, rt'))"
        using at_branch(4) j eqs by simp
      have st: "seekPosition rt1 = ?t" using at_branch(3) by (rule descend_seek)
      have sv2: "same_view r1 rt1" using sv1 rt1 by simp
      have e1: "seekPosition rt1 = currNodeDBias rN + dPtrMax (currNode rN)"
        using st tN by simp
      have e2: "seekPosition rt1 < ?db1 + dPtrMax (currNode r1)"
        using st True d(2) by simp
      have "dOff (currNode rt') (nextChunk rt') (currNodeDBias rt') = seekPosition rt1"
        using yN d(1) lo1 sv2 e1 e2 w by (rule IH)
      then show ?thesis using st by simp
    qed
  next
    case False
    then have t: "?t = dOff ?b (i + 1) dBias" using hi by simp
    have aligned: "dOff ?b j dBias = ?t \<and> dOff ?bt j dBias = ?t \<and> j < arity ?bt"
      if fj0: "findChunkContaining ?bt ?t dBias = Some j" for j
    proof -
      have fj: "findChunkContaining ?b ?t dBias = Some j" using fj0 fb by simp
      note jf = fcc_SomeD [OF fj]
      have le: "dOff ?b j dBias \<le> ?t"
        using fj dblo by (rule fcc_contains)
      have "\<not> j \<le> i"
      proof
        assume "j \<le> i"
        then have "dOff ?b (j + 1) dBias \<le> dOff ?b (i + 1) dBias"
          using i by (intro node_ok_dOff_mono [OF ok]) simp_all
        then show False using jf(2) t by simp
      qed
      then have "dOff ?b (i + 1) dBias \<le> dOff ?b j dBias"
        using jf(1) by (intro node_ok_dOff_mono [OF ok]) simp_all
      then have "dOff ?b j dBias = ?t" using le t by simp
      moreover have "dOff ?bt j dBias = dOff ?b j dBias"
        using jf(1) by (intro same_node_DPtr(2) [OF sn]) simp
      moreover have "j < arity ?bt" using jf(1) same_node_fields(1) [OF sn] by simp
      ultimately show ?thesis by simp
    qed
    from twalk show ?thesis
    proof (cases rule: walk_Return_NoneE)
      case (at_leaf j)
      then show ?thesis using aligned [OF at_leaf(1)] by simp
    next
      case (at_branch j rt1)
      note a = aligned [OF at_branch(1)]
      have jt: "j < arity ?bt" using a by simp
      note dt = descend_node_ok [OF okt jt at_branch(3)]
      have st: "seekPosition rt1 = dOff ?bt j dBias"
        using descend_seek [OF at_branch(3)] a by simp
      have "dOff (currNode rt') (nextChunk rt') (currNodeDBias rt') = dOff ?bt j dBias"
        using at_branch(4) refl dt(1) st by (rule walk_aligned_begin)
      then show ?thesis using a by simp
    qed
  qed
qed

section \<open>The cursor\<close>

lemma DRange_chunk: "DRange (chunk b i cb db) = (dOff b i db, dOff b (i + 1) db)"
  by (simp add: chunk_def dOffRange_def Let_def)

lemma chunk_loop_step:
  assumes "nextChunk r < arity (currNode r)"
  shows "chunk_loop r =
    (let c = chunk (currNode r) (nextChunk r) (currNodeCBias r) (currNodeDBias r);
         r1 = r\<lparr>nextChunk := nextChunk r + 1, seekPosition := snd (DRange c)\<rparr>
     in if \<not> Range_Empty (DRange c) then (Some c, r1) else chunk_loop r1)"
  using assms by (subst chunk_loop.simps) simp

lemma chunk_loop_done: "\<not> nextChunk r < arity (currNode r) \<Longrightarrow> chunk_loop r = (None, r)"
  by (subst chunk_loop.simps) simp

lemma chunk_loop_Some:
  "chunk_loop r = (Some c, r2) \<Longrightarrow>
     \<exists>j. nextChunk r \<le> j \<and> j < arity (currNode r) \<and>
         c = chunk (currNode r) j (currNodeCBias r) (currNodeDBias r) \<and>
         dOff (currNode r) j (currNodeDBias r) \<noteq> dOff (currNode r) (j + 1) (currNodeDBias r) \<and>
         (\<forall>k. nextChunk r \<le> k \<and> k < j \<longrightarrow>
            dOff (currNode r) k (currNodeDBias r) = dOff (currNode r) (k + 1) (currNodeDBias r)) \<and>
         r2 = r\<lparr>nextChunk := j + 1,
                seekPosition := dOff (currNode r) (j + 1) (currNodeDBias r)\<rparr>"
proof (induction r arbitrary: c r2 rule: chunk_loop.induct)
  case (1 r)
  let ?b = "currNode r" and ?db = "currNodeDBias r" and ?k = "nextChunk r"
  let ?c = "chunk ?b ?k (currNodeCBias r) ?db"
  let ?r1 = "r\<lparr>nextChunk := ?k + 1, seekPosition := snd (DRange ?c)\<rparr>"
  show ?case
  proof (cases "?k < arity ?b")
    case False
    then show ?thesis using "1.prems" by (simp add: chunk_loop_done)
  next
    case True
    show ?thesis
    proof (cases "Range_Empty (DRange ?c)")
      case False
      have "chunk_loop r = (Some ?c, ?r1)"
        using True False by (simp add: chunk_loop_step Let_def)
      then have "c = ?c" and "r2 = ?r1" using "1.prems" by simp_all
      then show ?thesis
        using True False by (intro exI [of _ ?k]) (simp add: DRange_chunk Range_Empty_def)
    next
      case e: True
      then have "chunk_loop ?r1 = (Some c, r2)"
        using "1.prems" True by (simp add: chunk_loop_step Let_def)
      from "1.IH" [OF True refl refl _ this] e
      obtain j where j: "?k + 1 \<le> j" "j < arity ?b"
        "c = chunk ?b j (currNodeCBias r) ?db"
        "dOff ?b j ?db \<noteq> dOff ?b (j + 1) ?db"
        "\<forall>k. ?k + 1 \<le> k \<and> k < j \<longrightarrow> dOff ?b k ?db = dOff ?b (k + 1) ?db"
        "r2 = r\<lparr>nextChunk := j + 1, seekPosition := dOff ?b (j + 1) ?db\<rparr>"
        by auto
      have e0: "dOff ?b ?k ?db = dOff ?b (?k + 1) ?db"
        using e by (simp add: DRange_chunk Range_Empty_def)
      have "\<forall>k. ?k \<le> k \<and> k < j \<longrightarrow> dOff ?b k ?db = dOff ?b (k + 1) ?db"
        using all_from_Suc [of "\<lambda>k. dOff ?b k ?db = dOff ?b (k + 1) ?db" ?k j] e0 j(5)
        by simp
      then show ?thesis using j by (intro exI [of _ j]) simp
    qed
  qed
qed

lemma chunk_loop_None:
  "chunk_loop r = (None, r2) \<Longrightarrow>
     (\<forall>k. nextChunk r \<le> k \<and> k < arity (currNode r) \<longrightarrow>
        dOff (currNode r) k (currNodeDBias r) = dOff (currNode r) (k + 1) (currNodeDBias r)) \<and>
     currNode r2 = currNode r \<and> currNodeDBias r2 = currNodeDBias r \<and>
     err r2 = err r \<and> needToResolveSeekPosition r2 = needToResolveSeekPosition r \<and>
     (if nextChunk r < arity (currNode r)
      then seekPosition r2 = dOff (currNode r) (arity (currNode r)) (currNodeDBias r)
      else seekPosition r2 = seekPosition r)"
proof (induction r arbitrary: r2 rule: chunk_loop.induct)
  case (1 r)
  let ?b = "currNode r" and ?db = "currNodeDBias r" and ?k = "nextChunk r"
  let ?c = "chunk ?b ?k (currNodeCBias r) ?db"
  let ?r1 = "r\<lparr>nextChunk := ?k + 1, seekPosition := snd (DRange ?c)\<rparr>"
  show ?case
  proof (cases "?k < arity ?b")
    case False
    then show ?thesis using "1.prems" by (simp add: chunk_loop_done)
  next
    case True
    have e: "Range_Empty (DRange ?c)"
      using "1.prems" True by (auto simp: chunk_loop_step Let_def split: if_splits)
    then have cl: "chunk_loop ?r1 = (None, r2)"
      using "1.prems" True by (simp add: chunk_loop_step Let_def)
    note ih = "1.IH" [OF True refl refl _ cl, simplified]
    have e0: "dOff ?b ?k ?db = dOff ?b (?k + 1) ?db"
      using e by (simp add: DRange_chunk Range_Empty_def)
    have all: "\<forall>k. ?k \<le> k \<and> k < arity ?b \<longrightarrow> dOff ?b k ?db = dOff ?b (k + 1) ?db"
      using all_from_Suc [of "\<lambda>k. dOff ?b k ?db = dOff ?b (k + 1) ?db" ?k "arity ?b"] e0 ih e
      by simp
    have sp: "seekPosition r2 = dOff ?b (arity ?b) ?db"
    proof (cases "?k + 1 < arity ?b")
      case True
      then show ?thesis using ih e by simp
    next
      case False
      then have "?k + 1 = arity ?b" using True by simp
      then show ?thesis using ih e False by (simp add: DRange_chunk)
    qed
    show ?thesis using all sp ih e True by simp
  qed
qed

lemma resolveSeekPosition_NoneD:
  assumes "resolveSeekPosition r = Some (Return (None, r'))"
  obtains rl where "load r (rootNodeCOffset r) (rootNodeArity r) = (None, rl)"
    and "walk rl 0 0 (Return (None, r'))"
  using assms unfolding resolveSeekPosition_def
  by (auto split: prod.splits option.splits simp: resolve_walk_iff_walk)

lemma initialize_done: "initialized r \<Longrightarrow> err r = None \<Longrightarrow> initialize r = (None, r)"
  by (simp add: initialize_def)

lemma Seek_initialized:
  assumes "initialized r" and "err r = None" and "0 \<le> d"
  shows "SeekToChunkContaining r d =
    (None, r\<lparr>needToResolveSeekPosition := True, seekPosition := d\<rparr>)"
  using assms by (simp add: SeekToChunkContaining_def initialize_done)

lemma NextChunk_initialized:
  "initialized r \<Longrightarrow> err r = None \<Longrightarrow> NextChunk r = NextChunk_loop r"
  by (simp add: NextChunk_def initialize_done)

lemma NextChunk_loop_EOF:
  assumes "needToResolveSeekPosition r" and "decompressedSize r \<le> seekPosition r"
  shows "NextChunk_loop r = Some (Return ((zeroChunk, Some EOF), r))"
  using assms by (subst NextChunk_loop.simps) simp

lemma NextChunk_loop_resolve:
  assumes "needToResolveSeekPosition r" and "seekPosition r < decompressedSize r"
  shows "NextChunk_loop r =
    (case resolveSeekPosition (r\<lparr>needToResolveSeekPosition := False\<rparr>) of
       None \<Rightarrow> None
     | Some Panic \<Rightarrow> Some Panic
     | Some (Return (Some e, r1)) \<Rightarrow> Some (Return ((zeroChunk, Some e), r1))
     | Some (Return (None, r1)) \<Rightarrow>
         (case chunk_loop r1 of
            (Some c, r2) \<Rightarrow> Some (Return ((c, None), r2))
          | (None, r2) \<Rightarrow> NextChunk_loop (r2\<lparr>needToResolveSeekPosition := True\<rparr>)))"
  using assms by (subst NextChunk_loop.simps) simp

lemma NextChunk_loop_continue:
  assumes "\<not> needToResolveSeekPosition r"
  shows "NextChunk_loop r =
    (case chunk_loop r of
       (Some c, r2) \<Rightarrow> Some (Return ((c, None), r2))
     | (None, r2) \<Rightarrow> NextChunk_loop (r2\<lparr>needToResolveSeekPosition := True\<rparr>))"
  using assms by (subst NextChunk_loop.simps) simp

lemma resolved_chunk:
  assumes res: "resolveSeekPosition r = Some (Return (None, r1))"
    and pos: "0 \<le> seekPosition r"
  shows "chunk_loop r1 =
      (Some (chunk (currNode r1) (nextChunk r1) (currNodeCBias r1) (currNodeDBias r1)),
       r1\<lparr>nextChunk := nextChunk r1 + 1,
          seekPosition := dOff (currNode r1) (nextChunk r1 + 1) (currNodeDBias r1)\<rparr>)"
    and "dOff (currNode r1) (nextChunk r1) (currNodeDBias r1) \<le> seekPosition r"
    and "seekPosition r < dOff (currNode r1) (nextChunk r1 + 1) (currNodeDBias r1)"
proof -
  from res obtain rl where ld: "load r (rootNodeCOffset r) (rootNodeArity r) = (None, rl)"
    and w: "walk rl 0 0 (Return (None, r1))"
    by (rule resolveSeekPosition_NoneD)
  have s: "seekPosition rl = seekPosition r" using ld by (rule load_seek)
  have c: "nextChunk r1 < arity (currNode r1)"
    "dOff (currNode r1) (nextChunk r1) (currNodeDBias r1) \<le> seekPosition r"
    "seekPosition r < dOff (currNode r1) (nextChunk r1 + 1) (currNodeDBias r1)"
    using walk_contains [OF w refl] pos s by simp_all
  show "dOff (currNode r1) (nextChunk r1) (currNodeDBias r1) \<le> seekPosition r"
    and "seekPosition r < dOff (currNode r1) (nextChunk r1 + 1) (currNodeDBias r1)"
    by (rule c(2), rule c(3))
  show "chunk_loop r1 =
      (Some (chunk (currNode r1) (nextChunk r1) (currNodeCBias r1) (currNodeDBias r1)),
       r1\<lparr>nextChunk := nextChunk r1 + 1,
          seekPosition := dOff (currNode r1) (nextChunk r1 + 1) (currNodeDBias r1)\<rparr>)"
    using c by (simp add: chunk_loop_step Let_def DRange_chunk Range_Empty_def)
qed

text \<open>
  C6. On a reader that a caller can produce and whose initialization has succeeded,
  after \<open>SeekToChunkContaining(d)\<close> with \<open>d \<ge> decompressedSize\<close> the next \<open>NextChunk\<close>
  returns \<open>io.EOF\<close> and leaves the reader as it was: no node is loaded and \<open>r.err\<close> stays
  nil. A later \<open>SeekToChunkContaining\<close> then does what it would have done without the
  end-of-stream seek.
\<close>

theorem seek_past_end_is_EOF:
  assumes "reachable r" and "initialized r" and "err r = None" and "decompressedSize r \<le> d"
  shows "\<exists>r1. SeekToChunkContaining r d = (None, r1) \<and>
           NextChunk r1 = Some (Return ((zeroChunk, Some EOF), r1)) \<and>
           err r1 = None \<and> currNode r1 = currNode r \<and>
           (\<forall>d'. 0 \<le> d' \<longrightarrow> SeekToChunkContaining r1 d' = SeekToChunkContaining r d')"
proof -
  let ?r1 = "r\<lparr>needToResolveSeekPosition := True, seekPosition := d\<rparr>"
  have d: "0 \<le> d" using reachable_dsize [OF assms(1)] assms(4) by simp
  have sk: "SeekToChunkContaining r d = (None, ?r1)"
    using assms(2,3) d by (rule Seek_initialized)
  have "NextChunk ?r1 = NextChunk_loop ?r1"
    using assms(2,3) by (simp add: NextChunk_initialized)
  also have "\<dots> = Some (Return ((zeroChunk, Some EOF), ?r1))"
    using assms(4) by (simp add: NextChunk_loop_EOF)
  finally have nc: "NextChunk ?r1 = Some (Return ((zeroChunk, Some EOF), ?r1))" .
  have "\<forall>d'. 0 \<le> d' \<longrightarrow> SeekToChunkContaining ?r1 d' = SeekToChunkContaining r d'"
    using assms(2,3) by (simp add: Seek_initialized)
  then show ?thesis using sk nc assms(3) by simp
qed

section \<open>The example containers\<close>

lemma root_reload:
  assumes "rootNodeArity r \<noteq> 0" and "0 \<le> rootNodeCOffset r"
    and "nat (rootNodeCOffset r) + nodeSize (rootNodeArity r) \<le> length (contents r)"
  obtains rl where "load r (rootNodeCOffset r) (rootNodeArity r) = (None, rl)"
    and "agree (nodeSize (rootNodeArity r))
           (node_at (contents r) (nat (rootNodeCOffset r))) (currNode rl)"
    and "contents rl = contents r" and "CompressedSize rl = CompressedSize r"
    and "seekPosition rl = seekPosition r" and "err rl = err r"
proof -
  let ?rl = "r\<lparr>currNode := \<lambda>j. if j < nodeSize (rootNodeArity r)
      then contents r ! (nat (rootNodeCOffset r) + j) else currNode r j\<rparr>"
  have "load r (rootNodeCOffset r) (rootNodeArity r) = (None, ?rl)"
    using assms by (rule load_ok)
  moreover have "agree (nodeSize (rootNodeArity r))
      (node_at (contents r) (nat (rootNodeCOffset r))) (currNode ?rl)"
    using assms(3) by (simp add: agree_def node_at_def)
  moreover have "contents ?rl = contents r" by (simp add: contents_def)
  ultimately show ?thesis by (intro that [of ?rl]) simp_all
qed

text \<open>Readers of the 32-byte example containers: a root of arity 1 at the head.\<close>

lemma head_root_32:
  assumes "rootNodeArity r = 1" and "rootNodeCOffset r = 0" and "ReadSeeker r = Some f"
    and "length f = 32" and "f ! 3 = 1"
  obtains rl where "resolveSeekPosition r = resolve_walk rl 0 0"
    and "same_node (node_at f 0) (currNode rl)"
    and "CompressedSize rl = CompressedSize r" and "seekPosition rl = seekPosition r"
    and "err rl = err r" and "contents rl = f"
proof -
  have c: "contents r = f" using assms(3) by (simp add: contents_def)
  have a: "rootNodeArity r \<noteq> 0" "0 \<le> rootNodeCOffset r"
    "nat (rootNodeCOffset r) + nodeSize (rootNodeArity r) \<le> length (contents r)"
    using assms c by (simp_all add: nodeSize_def)
  from root_reload [OF a] obtain rl
    where rl: "load r (rootNodeCOffset r) (rootNodeArity r) = (None, rl)"
      "agree (nodeSize (rootNodeArity r))
         (node_at (contents r) (nat (rootNodeCOffset r))) (currNode rl)"
      "contents rl = contents r" "CompressedSize rl = CompressedSize r"
      "seekPosition rl = seekPosition r" "err rl = err r"
    by blast
  have "node_at f 0 3 = 1" using assms(4,5) by (simp add: node_at_def)
  then have "same_node (node_at f 0) (currNode rl)"
    using rl(2) assms(1,2) c by (intro agree_same_node [of 32]) (simp_all add: nodeSize_def)
  moreover have "resolveSeekPosition r = resolve_walk rl 0 0"
    using rl(1) by (simp add: resolveSeekPosition_def)
  ultimately show ?thesis using rl(3-6) c by (intro that [of rl]) simp_all
qed


lemma result_of_Return [simp]: "result_of (Some (Return (a, r))) = Some a"
  by (simp add: result_of_def)

lemma flat_opened:
  "initialized (opened flat_file 32) \<and> err (opened flat_file 32) = None \<and>
   decompressedSize (opened flat_file 32) = 100 \<and>
   rootNodeCOffset (opened flat_file 32) = 0 \<and> rootNodeArity (opened flat_file 32) = 1 \<and>
   ReadSeeker (opened flat_file 32) = Some flat_file \<and> CompressedSize (opened flat_file 32) = 32"
  by (simp add: opened_def reader_eval flat_eval)

lemma flat_node_facts:
  "isLeaf (node_at flat_file 0) 0 \<and> arity (node_at flat_file 0) = 1 \<and>
   DPtr (node_at flat_file 0) 1 = 100 \<and> dPtrMax (node_at flat_file 0) = 100"
  by (simp add: isLeaf_def arity_def DPtr_def dPtrMax_def u48LE_at_eval node_at_def flat_file_def)

lemma flat_fcc:
  assumes "0 \<le> d" and "d < 100"
  shows "findChunkContaining (node_at flat_file 0) d 0 = Some 0"
proof -
  have ok: "node_ok 100 (node_at flat_file 0) 0"
    using valid_flat_node flat_node_facts by (simp add: node_ok_def)
  have o: "\<And>j. dOff (node_at flat_file 0) j 0 = 0 + DPtr (node_at flat_file 0) j"
    by (rule node_ok_dOff [OF ok])
  show ?thesis
    using assms flat_node_facts by (intro fcc_unique [OF ok]) (simp_all add: o DPtr_def)
qed

lemma flat_resolve:
  assumes "rootNodeArity r = 1" and "rootNodeCOffset r = 0" and "ReadSeeker r = Some flat_file"
    and "0 \<le> seekPosition r" and "seekPosition r < 100"
  shows "\<exists>r1. resolveSeekPosition r = Some (Return (None, r1))"
proof -
  have len: "length flat_file = 32" and a: "flat_file ! 3 = 1"
    by (simp_all add: flat_file_def)
  from head_root_32 [OF assms(1-3) len a] obtain rl
    where rl: "resolveSeekPosition r = resolve_walk rl 0 0"
      "same_node (node_at flat_file 0) (currNode rl)" "seekPosition rl = seekPosition r"
    by blast
  have f: "findChunkContaining (currNode rl) (seekPosition rl) 0 = Some 0"
    using same_node_fcc [OF rl(2)] flat_fcc [OF assms(4,5)] rl(3) by simp
  have l: "isLeaf (currNode rl) 0"
    using same_node_slot(3) [OF rl(2), of 0] flat_node_facts by simp
  show ?thesis
    unfolding rl(1) using f l by (simp add: resolve_walk_unfold)
qed











lemma flat_reachable: "reachable (opened flat_file 32)"
  unfolding opened_def
  by (rule reachable.after_DecompressedSize [OF reachable.fresh])

lemma flat_seek_NextChunk:
  assumes "0 \<le> d" and "d < 100"
  shows "\<exists>c r2. NextChunk (snd (SeekToChunkContaining (opened flat_file 32) d))
           = Some (Return ((c, None), r2))"
proof -
  let ?R = "opened flat_file 32"
  note f = flat_opened
  let ?rs = "?R\<lparr>needToResolveSeekPosition := True, seekPosition := d\<rparr>"
  have sk: "snd (SeekToChunkContaining ?R d) = ?rs"
    using f assms(1) by (simp add: Seek_initialized)
  let ?q = "?rs\<lparr>needToResolveSeekPosition := False\<rparr>"
  have q: "rootNodeArity ?q = 1" "rootNodeCOffset ?q = 0" "ReadSeeker ?q = Some flat_file"
    "0 \<le> seekPosition ?q" "seekPosition ?q < 100"
    using f assms by simp_all
  from flat_resolve [OF q] obtain r1 where res: "resolveSeekPosition ?q = Some (Return (None, r1))"
    by blast
  note rc = resolved_chunk [OF res]
  have "NextChunk ?rs = NextChunk_loop ?rs"
    using f by (simp add: NextChunk_initialized)
  also have "\<exists>c r2. \<dots> = Some (Return ((c, None), r2))"
    using assms f res rc(1) by (simp add: NextChunk_loop_resolve)
  finally show ?thesis unfolding sk .
qed

theorem seek_past_end_is_EOF_witness:
  "reachable (opened flat_file 32) \<and> initialized (opened flat_file 32) \<and>
   err (opened flat_file 32) = None \<and> decompressedSize (opened flat_file 32) \<le> 100 \<and>
   (\<exists>r1. SeekToChunkContaining (opened flat_file 32) 100 = (None, r1) \<and>
      NextChunk r1 = Some (Return ((zeroChunk, Some EOF), r1)) \<and> err r1 = None \<and>
      (\<exists>c r2. NextChunk (snd (SeekToChunkContaining r1 42)) = Some (Return ((c, None), r2))))"
proof -
  let ?R = "opened flat_file 32"
  have h: "initialized ?R" "err ?R = None" "decompressedSize ?R \<le> 100"
    using flat_opened by simp_all
  from seek_past_end_is_EOF [OF flat_reachable h] obtain r1
    where r1: "SeekToChunkContaining ?R 100 = (None, r1)"
      "NextChunk r1 = Some (Return ((zeroChunk, Some EOF), r1))" "err r1 = None"
      "\<forall>d'. 0 \<le> d' \<longrightarrow> SeekToChunkContaining r1 d' = SeekToChunkContaining ?R d'"
    by blast
  have "SeekToChunkContaining r1 42 = SeekToChunkContaining ?R 42"
    using r1(4) by simp
  then have "\<exists>c r2. NextChunk (snd (SeekToChunkContaining r1 42)) = Some (Return ((c, None), r2))"
    using flat_seek_NextChunk [of 42] by simp
  then show ?thesis using flat_reachable h r1(1-3) by blast
qed

lemma contents_update [simp]:
  "contents (r\<lparr>currNode := b\<rparr>) = contents r"
  "contents (r\<lparr>err := e\<rparr>) = contents r"
  "contents (r\<lparr>initialized := i\<rparr>) = contents r"
  by (simp_all add: contents_def)

lemma tryRootNode_TrueD:
  assumes "tryRootNode r a fe = ((True, None), r')"
  shows "a \<noteq> 0" and "0 \<le> rootNodeCOffset r'"
    and "nat (rootNodeCOffset r') + nodeSize a \<le> length (contents r)"
    and "rootNodeArity r' = a" and "valid (currNode r')"
    and "cPtrMax (currNode r') = CompressedSize r"
    and "decompressedSize r' = dPtrMax (currNode r')"
    and "\<forall>j < nodeSize a. currNode r' j = contents r ! (nat (rootNodeCOffset r') + j)"
    and "ReadSeeker r' = ReadSeeker r" and "CompressedSize r' = CompressedSize r"
    and "err r' = err r" and "initialized r' = initialized r"
    and "rootNodeCOffset r' = (if fe then CompressedSize r - int (nodeSize a) else 0)"
proof -
  let ?off = "if fe then CompressedSize r - int (nodeSize a) else 0"
  from assms obtain r1 where ld: "load r ?off a = (None, r1)"
    and v: "valid (currNode r1)" and c: "cPtrMax (currNode r1) = CompressedSize r1"
    and r': "r' = r1\<lparr>needToResolveSeekPosition := True, rootNodeCOffset := ?off,
                rootNodeArity := a, decompressedSize := dPtrMax (currNode r1)\<rparr>"
    unfolding tryRootNode_def Let_def
    by (auto split: if_splits prod.splits option.splits)
  note l = load_NoneD [OF ld]
  show "a \<noteq> 0" by (rule l(1))
  show "0 \<le> rootNodeCOffset r'" using l(2) r' by simp
  show "nat (rootNodeCOffset r') + nodeSize a \<le> length (contents r)" using l(3) r' by simp
  show "rootNodeArity r' = a" using r' by simp
  show "valid (currNode r')" using v r' by simp
  show "cPtrMax (currNode r') = CompressedSize r" using c r' l(4) by simp
  show "decompressedSize r' = dPtrMax (currNode r')" using r' by simp
  show "\<forall>j < nodeSize a. currNode r' j = contents r ! (nat (rootNodeCOffset r') + j)"
    using r' l(4) by simp
  show "ReadSeeker r' = ReadSeeker r" "CompressedSize r' = CompressedSize r"
    "err r' = err r" "initialized r' = initialized r"
    using r' l(4) by simp_all
  show "rootNodeCOffset r' = ?off" using r' by simp
qed


lemma tryRootNode_FalseD:
  assumes "tryRootNode r a fe = ((False, None), r')"
  shows "ReadSeeker r' = ReadSeeker r" and "CompressedSize r' = CompressedSize r"
    and "err r' = err r" and "initialized r' = initialized r"
  using assms unfolding tryRootNode_def Let_def
  by (auto split: if_splits prod.splits option.splits dest!: load_NoneD(4))

lemma findRootNode_NoneD:
  assumes "findRootNode r = (None, r')"
  obtains a fe r0 where "tryRootNode r0 a fe = ((True, None), r')"
    and "ReadSeeker r0 = ReadSeeker r" and "CompressedSize r0 = CompressedSize r"
    and "err r0 = err r" and "initialized r0 = initialized r"
proof -
  from assms consider
    (head) b where "tryRootNode (r\<lparr>currNode := b\<rparr>) (b 3) False = ((True, None), r')"
  | (tail) b r2 b2 where "tryRootNode (r\<lparr>currNode := b\<rparr>) (b 3) False = ((False, None), r2)"
      "tryRootNode (r2\<lparr>currNode := b2\<rparr>) (b2 0) True = ((True, None), r')"
    unfolding findRootNode_def Let_def
    by (auto split: if_splits prod.splits option.splits bool.splits)
  then show ?thesis
  proof cases
    case head
    then show ?thesis by (intro that [of "r\<lparr>currNode := b\<rparr>" "b 3" False]) simp_all
  next
    case tail
    note F = tryRootNode_FalseD [OF tail(1)]
    show ?thesis
      using tail(2) F by (intro that [of "r2\<lparr>currNode := b2\<rparr>" "b2 0" True]) simp_all
  qed
qed

lemma initialize_fresh_NoneD:
  assumes "initialize r = (None, r')" and "\<not> initialized r"
  obtains a fe r0 where "tryRootNode r0 a fe = ((True, None), r')"
    and "ReadSeeker r0 = ReadSeeker r" and "CompressedSize r0 = CompressedSize r"
    and "err r0 = None" and "initialized r0" and "version (currNode r') = 1"
    and "ReadSeeker r \<noteq> None"
proof -
  from assms obtain r2 where f: "findRootNode (r\<lparr>initialized := True\<rparr>) = (None, r2)"
    and v: "version (currNode r2) = 1" and e: "err r = None" and r2: "r' = r2"
    and rs: "ReadSeeker r \<noteq> None"
    unfolding initialize_def Let_def checkParameters_def
    by (auto split: if_splits prod.splits option.splits)
  from f obtain a fe r0 where t: "tryRootNode r0 a fe = ((True, None), r2)"
    and k: "ReadSeeker r0 = ReadSeeker (r\<lparr>initialized := True\<rparr>)"
      "CompressedSize r0 = CompressedSize (r\<lparr>initialized := True\<rparr>)"
      "err r0 = err (r\<lparr>initialized := True\<rparr>)"
      "initialized r0 = initialized (r\<lparr>initialized := True\<rparr>)"
    by (rule findRootNode_NoneD)
  show ?thesis
    using t k v e rs unfolding r2 [symmetric] by (intro that [of r0 a fe]) simp_all
qed

text \<open>What the acceptance of a container establishes.\<close>

lemma opened_facts:
  assumes "fst (DecompressedSize (newReader f n)) = (D, None)"
  shows "initialized (opened f n)" and "err (opened f n) = None"
    and "decompressedSize (opened f n) = D"
    and "ReadSeeker (opened f n) = Some f" and "CompressedSize (opened f n) = n"
    and "rootNodeArity (opened f n) \<noteq> 0" and "0 \<le> rootNodeCOffset (opened f n)"
    and "nat (rootNodeCOffset (opened f n)) + nodeSize (rootNodeArity (opened f n)) \<le> length f"
    and "\<forall>j < nodeSize (rootNodeArity (opened f n)).
           currNode (opened f n) j = f ! (nat (rootNodeCOffset (opened f n)) + j)"
    and "valid (currNode (opened f n))" and "dPtrMax (currNode (opened f n)) = D"
    and "cPtrMax (currNode (opened f n)) = n" and "version (currNode (opened f n)) = 1"
proof -
  let ?r = "newReader f n"
  have fresh: "\<not> initialized ?r" "ReadSeeker ?r = Some f" "CompressedSize ?r = n"
    by (simp_all add: newReader_def)
  from assms obtain r' where i: "initialize ?r = (None, r')" and d: "decompressedSize r' = D"
    unfolding DecompressedSize_def by (auto split: prod.splits option.splits)
  have o: "opened f n = r'" using i by (simp add: opened_def DecompressedSize_def)
  from initialize_fresh_NoneD [OF i fresh(1)] obtain a fe r0
    where t: "tryRootNode r0 a fe = ((True, None), r')"
      and k: "ReadSeeker r0 = ReadSeeker ?r" "CompressedSize r0 = CompressedSize ?r"
        "err r0 = None" "initialized r0" "version (currNode r') = 1"
    by blast
  note T = tryRootNode_TrueD [OF t]
  have c: "contents r0 = f" using k(1) fresh(2) by (simp add: contents_def)
  show "initialized (opened f n)" "err (opened f n) = None" "decompressedSize (opened f n) = D"
    "ReadSeeker (opened f n) = Some f" "CompressedSize (opened f n) = n"
    using T(9-12) k fresh d unfolding o by simp_all
  show "rootNodeArity (opened f n) \<noteq> 0" "0 \<le> rootNodeCOffset (opened f n)"
    "nat (rootNodeCOffset (opened f n)) + nodeSize (rootNodeArity (opened f n)) \<le> length f"
    using T(1-4) c unfolding o by simp_all
  show "\<forall>j < nodeSize (rootNodeArity (opened f n)).
           currNode (opened f n) j = f ! (nat (rootNodeCOffset (opened f n)) + j)"
    using T(8) T(4) c unfolding o by simp
  show "valid (currNode (opened f n))" "dPtrMax (currNode (opened f n)) = D"
    "cPtrMax (currNode (opened f n)) = n" "version (currNode (opened f n)) = 1"
    using T(5-7) k d fresh unfolding o by simp_all
qed

section \<open>The descent along a sound path\<close>







subsection \<open>The two-level container\<close>

lemma crc_tree_root:
  "ChecksumIEEE [0x00, 0xFE, 0xF4, 0x01, 0x00, 0x00, 0x00, 0x00, 0x00, 0xFE,
      0x84, 0x03, 0x00, 0x00, 0x00, 0x00, 0x00, 0x01,  0x30, 0x00, 0x00, 0x00, 0x00, 0x00, 0x00, 0xFF,
      0x50, 0x00, 0x00, 0x00, 0x00, 0x00, 0x00, 0xFF,  0x70, 0x00, 0x00, 0x00, 0x00, 0x00, 0x01, 0x02]
   = 0x6AE8617C"
  by code_simp

lemma crc_tree_left:
  "ChecksumIEEE [0x00, 0xFF, 0xF4, 0x01, 0x00, 0x00, 0x00, 0x00, 0x00, 0x01,
      0x70, 0x00, 0x00, 0x00, 0x00, 0x00, 0x00, 0xFF,  0x70, 0x00, 0x00, 0x00, 0x00, 0x00, 0x01, 0x01]
   = 0x78E70C90"
  by code_simp


lemma tree_accepted: "fst (DecompressedSize (newReader tree_file 112)) = (900, None)"
  by (simp add: reader_eval tree_file_def node_eval crc_tree_root)



lemma valid_tree_left: "valid (node_at tree_file 48)"
  by (simp add: node_eval node_at_def tree_file_def crc_tree_left)



lemma tree_root_bytes: "node_at tree_file 0 3 = 2"
  by (simp add: node_at_def tree_file_def)

lemma tree_root_facts:
  "arity (node_at tree_file 0) = 2" "codec (node_at tree_file 0) = 1"
  "version (node_at tree_file 0) = 1" "cPtrMax (node_at tree_file 0) = 112"
  "dPtrMax (node_at tree_file 0) = 900"
  "DPtr (node_at tree_file 0) 1 = 500" "DPtr (node_at tree_file 0) 2 = 900"
  by (simp_all add: arity_def codec_def version_def cPtrMax_def dPtrMax_def DPtr_def
      tree_root_bytes)
    (simp_all add: u48LE_at_eval node_at_def tree_file_def)



lemma tree_right_bytes: "node_at tree_file 80 3 = 1"
  by (simp add: node_at_def tree_file_def)

lemma tree_right_facts:
  "arity (node_at tree_file 80) = 1" "codec (node_at tree_file 80) = 1"
  "version (node_at tree_file 80) = 1" "cPtrMax (node_at tree_file 80) = 112"
  "dPtrMax (node_at tree_file 80) = 400" "DPtr (node_at tree_file 80) 1 = 400"
  "isLeaf (node_at tree_file 80) 0"
  by (simp_all add: arity_def codec_def version_def cPtrMax_def dPtrMax_def DPtr_def isLeaf_def
      tree_right_bytes)
    (simp_all add: u48LE_at_eval node_at_def tree_file_def)

lemma cOff_CPtr: "cOff b i cb = i64 (cb + CPtr b i)"
  by (simp add: cOff_def CPtr_def arity_def Let_def)







section \<open>Termination of the descent\<close>

lemma walk_exists:
  assumes "\<And>i r1. findChunkContaining (currNode r) (seekPosition r) db = Some i \<Longrightarrow>
      \<not> isLeaf (currNode r) i \<Longrightarrow> descend r i cb = (None, r1) \<Longrightarrow>
      \<exists>y. walk r1 (childCBias_of (currNode r) i cb) (dOff (currNode r) i db) y"
  shows "\<exists>y. walk r cb db y"
proof (cases "findChunkContaining (currNode r) (seekPosition r) db")
  case None
  then show ?thesis by (blast intro: walk.panic)
next
  case (Some i)
  show ?thesis
  proof (cases "isLeaf (currNode r) i")
    case True
    with Some show ?thesis by (blast intro: walk.leaf)
  next
    case False
    obtain e r1 where d: "descend r i cb = (e, r1)" by (cases "descend r i cb")
    show ?thesis
    proof (cases e)
      case None
      from assms [OF Some False d [unfolded None]] obtain y
        where "walk r1 (childCBias_of (currNode r) i cb) (dOff (currNode r) i db) y" by blast
      from walk.branch [OF Some False d [unfolded None] this] show ?thesis by blast
    next
      case (Some x)
      from walk.fail [OF \<open>findChunkContaining (currNode r) (seekPosition r) db = Some i\<close> False
          d [unfolded Some]]
      show ?thesis by blast
    qed
  qed
qed

text \<open>A successful step of the loop from a node of the container is a \<open>descent_step\<close>.\<close>

lemma descend_descent_step:
  assumes d: "descend r i cb = (None, r1)"
    and sn: "same_node (node_at (contents r) (nat off)) (currNode r)"
    and v: "valid (currNode r)" and i: "i < arity (currNode r)" and l: "\<not> isLeaf (currNode r) i"
  shows "((cOff (currNode r) i cb, childCBias_of (currNode r) i cb), (off, cb))
           \<in> descent_step (contents r) (CompressedSize r)"
proof -
  let ?b = "node_at (contents r) (nat off)"
  have a: "arity (currNode r) = arity ?b" using same_node_fields(1) [OF sn] by simp
  then have ib: "i < arity ?b" using i by simp
  note s = same_node_slot [OF sn ib] same_node_fields [OF sn] same_node_childCBias [OF sn ib]
  have vb: "valid ?b" using same_node_valid [OF sn] v by simp
  have "child_ok (contents r) (CompressedSize r) (cOff (currNode r) i cb) (codec (currNode r))
      (version (currNode r)) (i64 (cb + cPtrMax (currNode r))) (childCBias_of (currNode r) i cb)
      (dSize (currNode r) i)"
    using d unfolding descend_def by (rule loadAndValidate_NoneD(1))
  then have "child_ok (contents r) (CompressedSize r) (cOff ?b i cb) (codec ?b) (version ?b)
      (i64 (cb + cPtrMax ?b)) (childCBias_of ?b i cb) (dSize ?b i)"
    unfolding s .
  moreover have "\<not> isLeaf ?b i" using l s(3) by simp
  ultimately show ?thesis
    using vb ib unfolding descent_step_def Let_def s by blast
qed

lemma wf_walk:
  assumes "wf (descent_step f cs)"
  shows "contents r = f \<Longrightarrow> CompressedSize r = cs \<Longrightarrow>
     same_node (node_at f (nat off)) (currNode r) \<Longrightarrow> valid (currNode r) \<Longrightarrow>
     \<exists>y. walk r cb db y"
  using assms
proof (induction "(off, cb)" arbitrary: off cb r db rule: wf_induct_rule)
  case less
  show ?case
  proof (rule walk_exists)
    fix i r1
    assume fc: "findChunkContaining (currNode r) (seekPosition r) db = Some i"
      and l: "\<not> isLeaf (currNode r) i" and d: "descend r i cb = (None, r1)"
    have i: "i < arity (currNode r)" using fc by (rule fcc_SomeD(1))
    have sn: "same_node (node_at (contents r) (nat off)) (currNode r)"
      using less.prems by simp
    have e: "((cOff (currNode r) i cb, childCBias_of (currNode r) i cb), (off, cb))
        \<in> descent_step f cs"
      using descend_descent_step [OF d sn less.prems(4) i l] less.prems(1,2) by simp
    note D = descend_NoneD [OF d]
    show "\<exists>y. walk r1 (childCBias_of (currNode r) i cb) (dOff (currNode r) i db) y"
      using e D(3,4,7,1) less.prems(1,2) by (intro less.hyps) simp_all
  qed
qed

text \<open>
  C3, as the code has it. When the index nodes of the container form no cycle (the
  relation \<open>descent_step\<close> between a node and the children that \<open>loadAndValidate\<close> accepts
  for it is well-founded), \<open>resolveSeekPosition\<close> returns, from every state of the reader:
  with a leaf, with an error, or by the panic of \<open>findChunkContaining\<close>. Nothing in the
  code makes a step strictly reduce the \<open>cPtrMax\<close> window.
\<close>

theorem resolveSeekPosition_terminates:
  assumes "wf (descent_step (contents r) (CompressedSize r))"
  shows "\<exists>y. resolveSeekPosition r = Some y"
proof (cases "load r (rootNodeCOffset r) (rootNodeArity r)")
  case (Pair e rl)
  show ?thesis
  proof (cases e)
    case (Some x)
    with Pair show ?thesis by (simp add: resolveSeekPosition_def)
  next
    case None
    note ld = Pair [unfolded None]
    have c: "contents rl = contents r" "CompressedSize rl = CompressedSize r"
      using load_NoneD(4) [OF ld] by simp_all
    have "\<exists>y. walk rl 0 0 y"
    proof (rule walk_exists)
      fix i r1
      assume d: "descend rl i 0 = (None, r1)"
      note D = descend_NoneD [OF d]
      show "\<exists>y. walk r1 (childCBias_of (currNode rl) i 0) (dOff (currNode rl) i 0) y"
        using assms D(3,4,7,1) c by (intro wf_walk [where off = "cOff (currNode rl) i 0"]) simp_all
    qed
    then obtain y where "walk rl 0 0 y" by blast
    then have "resolve_walk rl 0 0 = Some y" by (rule walk_imp_resolve_walk)
    with ld show ?thesis by (simp add: resolveSeekPosition_def)
  qed
qed

subsection \<open>The container whose root is its own child\<close>

lemma crc_loop_file:
  "ChecksumIEEE [0x00, 0xFE, 0x64, 0x00, 0x00, 0x00, 0x00, 0x00, 0x00, 0x01,
      0x00, 0x00, 0x00, 0x00, 0x00, 0x00, 0x00, 0xFF,  0x20, 0x00, 0x00, 0x00, 0x00, 0x00, 0x01, 0x01]
   = 0xFE8DBCC2"
  by code_simp

lemma loop_opened:
  "initialized (opened loop_file 32) \<and> err (opened loop_file 32) = None \<and>
   decompressedSize (opened loop_file 32) = 100 \<and>
   rootNodeCOffset (opened loop_file 32) = 0 \<and>
   rootNodeArity (opened loop_file 32) = 1 \<and>
   ReadSeeker (opened loop_file 32) = Some loop_file \<and>
   CompressedSize (opened loop_file 32) = 32"
  by (simp add: opened_def reader_eval loop_file_def node_eval crc_loop_file)

lemma loop_accepted: "fst (DecompressedSize (newReader loop_file 32)) = (100, None)"
  by (simp add: reader_eval loop_file_def node_eval crc_loop_file)

lemma valid_loop_node: "valid (node_at loop_file 0)"
  by (simp add: node_eval node_at_def loop_file_def crc_loop_file)

lemma loop_node_bytes: "node_at loop_file 0 3 = 1"
  by (simp add: node_at_def loop_file_def)

lemma loop_node_facts:
  "arity (node_at loop_file 0) = 1" "codec (node_at loop_file 0) = 1"
  "version (node_at loop_file 0) = 1" "cPtrMax (node_at loop_file 0) = 32"
  "dPtrMax (node_at loop_file 0) = 100" "DPtr (node_at loop_file 0) 1 = 100"
  "\<not> isLeaf (node_at loop_file 0) 0" "CPtr (node_at loop_file 0) 0 = 0"
  "sTag (node_at loop_file 0) 0 = 0xFF"
  by (simp_all add: arity_def codec_def version_def cPtrMax_def dPtrMax_def DPtr_def isLeaf_def
      CPtr_def sTag_def loop_node_bytes)
    (simp_all add: u48LE_at_eval node_at_def loop_file_def)

lemma loop_child_ok: "child_ok loop_file 32 0 1 1 32 0 100"
  using valid_loop_node loop_node_facts
  by (simp add: child_ok_def Let_def loop_node_bytes nodeSize_def bitwiseSubset_def i64_def)
    (simp add: loop_file_def)

lemma loop_node_step:
  "findChunkContaining (node_at loop_file 0) 0 0 = Some 0"
  "cOff (node_at loop_file 0) 0 0 = 0" "childCBias_of (node_at loop_file 0) 0 0 = 0"
  "dOff (node_at loop_file 0) 0 0 = 0" "dSize (node_at loop_file 0) 0 = 100"
proof -
  let ?b = "node_at loop_file 0"
  have ok: "node_ok 100 ?b 0"
    using valid_loop_node loop_node_facts by (simp add: node_ok_def)
  note o = node_ok_dOff [OF ok]
  show "findChunkContaining ?b 0 0 = Some 0"
    using loop_node_facts by (intro fcc_unique [OF ok]) (simp_all add: o DPtr_def)
  show "cOff ?b 0 0 = 0" using loop_node_facts by (simp add: cOff_CPtr i64_def)
  show "childCBias_of ?b 0 0 = 0" using loop_node_facts by (simp add: childCBias_of_def)
  show "dOff ?b 0 0 = 0" by (simp add: dOff_def)
  show "dSize ?b 0 = 100" using loop_node_facts by (simp add: dSize_DPtr DPtr_def)
qed

text \<open>From the root of \<open>loop_file\<close> the loop comes back to the root: it has no outcome.\<close>

lemma loop_no_walk:
  "walk r cb db y \<Longrightarrow> contents r = loop_file \<Longrightarrow> CompressedSize r = 32 \<Longrightarrow>
     same_node (node_at loop_file 0) (currNode r) \<Longrightarrow> seekPosition r = 0 \<Longrightarrow>
     cb = 0 \<Longrightarrow> db = 0 \<Longrightarrow> False"
proof (induction rule: walk.induct)
  case (panic r dBias cBias)
  then show ?case using same_node_fcc [OF panic.prems(3)] loop_node_step(1) by simp
next
  case (leaf r dBias i cBias)
  have "i = 0" using leaf.hyps(1) leaf.prems same_node_fcc [OF leaf.prems(3)] loop_node_step(1)
    by simp
  then show ?case
    using leaf.hyps(2) same_node_slot(3) [OF leaf.prems(3), of 0] loop_node_facts by simp
next
  case (fail r dBias i cBias e r1)
  note sn = fail.prems(3)
  have i: "i = 0" using fail.hyps(1) fail.prems same_node_fcc [OF sn] loop_node_step(1) by simp
  have a: "0 < arity (node_at loop_file 0)" using loop_node_facts by simp
  note s = same_node_slot [OF sn a] same_node_fields [OF sn] same_node_childCBias [OF sn a]
  have "child_ok (contents r) (CompressedSize r) 0 1 1 32 0 100"
    using loop_child_ok fail.prems(1,2) by simp
  from child_ok_loadAndValidate [OF this] obtain r' where
    "loadAndValidate r 0 1 1 32 0 100 = (None, r')" by blast
  then have "descend r 0 0 = (None, r')"
    unfolding descend_def s loop_node_step loop_node_facts by (simp add: i64_def)
  with fail.hyps(3) show ?case unfolding i \<open>cBias = 0\<close> by simp
next
  case (branch r dBias i cBias r1 y)
  note sn = branch.prems(3)
  have i: "i = 0"
    using branch.hyps(1) branch.prems same_node_fcc [OF sn] loop_node_step(1) by simp
  have a: "0 < arity (node_at loop_file 0)" using loop_node_facts by simp
  note s = same_node_slot [OF sn a] same_node_fields [OF sn] same_node_childCBias [OF sn a]
  note D = descend_NoneD [OF branch.hyps(3)]
  have o: "dOff (currNode r) 0 0 = 0" by (simp add: dOff_def)
  have co: "cOff (currNode r) i cBias = 0" "childCBias_of (currNode r) i cBias = 0"
    "dOff (currNode r) i dBias = 0"
    using s(6) [of 0] s(13) [of 0] loop_node_step(2,3) i branch.prems(5,6)
    by (simp_all add: dOff_def)
  have sn1: "same_node (node_at loop_file 0) (currNode r1)"
    using D(7) branch.prems(1) unfolding co by simp
  show ?case
    using D(3,4,5) branch.prems(1,2,4) sn1 co
    by (intro branch.IH) simp_all
qed

lemma loop_resolve:
  assumes "rootNodeArity r = 1" and "rootNodeCOffset r = 0"
    and "ReadSeeker r = Some loop_file" and "seekPosition r = 0" and "CompressedSize r = 32"
  shows "resolveSeekPosition r = None"
proof -
  have len: "length loop_file = 32" and a: "loop_file ! 3 = 1"
    by (simp_all add: loop_file_def)
  from head_root_32 [OF assms(1-3) len a] obtain rl
    where rl: "resolveSeekPosition r = resolve_walk rl 0 0"
      "same_node (node_at loop_file 0) (currNode rl)" "seekPosition rl = seekPosition r"
      "CompressedSize rl = CompressedSize r" "contents rl = loop_file"
    by blast
  have "resolve_walk rl 0 0 \<noteq> Some y" for y
    using loop_no_walk [of rl 0 0 y] rl assms(4,5) by (auto simp: resolve_walk_iff_walk)
  then have "\<forall>y. resolve_walk rl 0 0 \<noteq> Some y" by blast
  then show ?thesis unfolding rl(1) by (simp only: not_Some_eq)
qed

lemma loop_NextChunk:
  "NextChunk (snd (SeekToChunkContaining (opened loop_file 32) 0)) = None"
proof -
  let ?R = "opened loop_file 32"
  note f = loop_opened
  let ?rs = "snd (SeekToChunkContaining ?R 0)"
  have sk: "?rs = ?R\<lparr>needToResolveSeekPosition := True, seekPosition := 0\<rparr>"
    using f by (simp add: Seek_initialized)
  let ?q = "?rs\<lparr>needToResolveSeekPosition := False\<rparr>"
  have q: "rootNodeArity ?q = 1" "rootNodeCOffset ?q = 0" "ReadSeeker ?q = Some loop_file"
    "seekPosition ?q = 0" "CompressedSize ?q = 32"
    unfolding sk using f by simp_all
  note res = loop_resolve [OF q]
  have "NextChunk ?rs = NextChunk_loop ?rs"
    unfolding sk using f by (simp add: NextChunk_initialized)
  also have "\<dots> = None"
    using res unfolding sk using f by (simp add: NextChunk_loop_resolve)
  finally show ?thesis .
qed

text \<open>
  C3 as stated fails on \<open>loop_file\<close>: the container is accepted, and the descent that
  \<open>NextChunk\<close> starts after \<open>SeekToChunkContaining(0)\<close> never ends, so that \<open>NextChunk\<close> does
  not return.
\<close>

theorem resolveSeekPosition_loops_counterexample:
  "fst (DecompressedSize (newReader loop_file 32)) = (100, None) \<and>
   resolveSeekPosition
     ((snd (SeekToChunkContaining (opened loop_file 32) 0))\<lparr>needToResolveSeekPosition := False\<rparr>)
     = None \<and>
   NextChunk (snd (SeekToChunkContaining (opened loop_file 32) 0)) = None"
proof -
  let ?R = "opened loop_file 32"
  note f = loop_opened
  have sk: "snd (SeekToChunkContaining ?R 0)
      = ?R\<lparr>needToResolveSeekPosition := True, seekPosition := 0\<rparr>"
    using f by (simp add: Seek_initialized)
  let ?q = "(snd (SeekToChunkContaining ?R 0))\<lparr>needToResolveSeekPosition := False\<rparr>"
  have q: "rootNodeArity ?q = 1" "rootNodeCOffset ?q = 0" "ReadSeeker ?q = Some loop_file"
    "seekPosition ?q = 0" "CompressedSize ?q = 32"
    unfolding sk using f by simp_all
  show ?thesis using loop_accepted loop_resolve [OF q] loop_NextChunk by simp
qed

subsection \<open>The two-level container has no cycle\<close>

lemma tree_magic_positions:
  "filter (\<lambda>k. tree_file ! k = 0x72) [0 ..< 112] = [0, 48, 80]"
  by code_simp

lemma tree_valid_nodes:
  assumes "valid (node_at tree_file k)"
  shows "k = 0 \<or> k = 48 \<or> k = 80"
proof -
  have m: "node_at tree_file k 0 = 0x72"
    using assms by (simp add: valid_iff node_invariants_def)
  have len: "length tree_file = 112" by (simp add: tree_file_def)
  have k: "k < 112" using m len by (cases "k < 112") (simp_all add: node_at_def)
  then have "tree_file ! k = 0x72" using m len by (simp add: node_at_def)
  then have "k \<in> set (filter (\<lambda>k. tree_file ! k = 0x72) [0 ..< 112])" using k by simp
  then show ?thesis unfolding tree_magic_positions by simp
qed

lemma tree_left_bytes: "node_at tree_file 48 3 = 1"
  by (simp add: node_at_def tree_file_def)

lemma tree_left_facts:
  "arity (node_at tree_file 48) = 1" "codec (node_at tree_file 48) = 1"
  "version (node_at tree_file 48) = 1" "cPtrMax (node_at tree_file 48) = 112"
  "dPtrMax (node_at tree_file 48) = 500" "DPtr (node_at tree_file 48) 1 = 500"
  "isLeaf (node_at tree_file 48) 0"
  by (simp_all add: arity_def codec_def version_def cPtrMax_def dPtrMax_def DPtr_def isLeaf_def
      tree_left_bytes)
    (simp_all add: u48LE_at_eval node_at_def tree_file_def)

lemma tree_root_dSize: "i < 2 \<Longrightarrow> dSize (node_at tree_file 0) i < 900"
proof -
  assume "i < 2"
  then have "i = 0 \<or> i = 1" by auto
  then show ?thesis
    using tree_root_facts by (auto simp: dSize_DPtr DPtr_def numeral_2_eq_2)
qed

lemma tree_steps:
  assumes "((off', cb'), (off, cb)) \<in> descent_step tree_file 112"
  shows "nat off = 0 \<and> nat off' \<noteq> 0"
proof -
  let ?b = "node_at tree_file (nat off)"
  from assms obtain i where v: "valid ?b" and i: "i < arity ?b" and l: "\<not> isLeaf ?b i"
    and c: "child_ok tree_file 112 off' (codec ?b) (version ?b) (i64 (cb + cPtrMax ?b)) cb'
              (dSize ?b i)"
    unfolding descent_step_def Let_def by auto
  from tree_valid_nodes [OF v] have o: "nat off = 0"
  proof (elim disjE)
    assume "nat off = 48"
    then show ?thesis using i l tree_left_facts by simp
  next
    assume "nat off = 80"
    then show ?thesis using i l tree_right_facts by simp
  qed
  have "dSize (node_at tree_file 0) i < 900"
    using i o tree_root_facts by (intro tree_root_dSize) simp
  moreover have "dSize ?b i = dPtrMax (node_at tree_file (nat off'))"
    using c by (simp add: child_ok_def Let_def)
  ultimately have "nat off' \<noteq> 0" using o tree_root_facts by auto
  with o show ?thesis by simp
qed

lemma wf_tree_file: "wf (descent_step tree_file 112)"
proof (rule wf_subset [OF wf_measure [of "\<lambda>p. if nat (fst p) = 0 then 1 else (0::nat)"]])
  show "descent_step tree_file 112 \<subseteq> measure (\<lambda>p. if nat (fst p) = 0 then 1 else 0)"
    using tree_steps by (auto simp: measure_def inv_image_def)
qed

theorem resolveSeekPosition_terminates_witness:
  "wf (descent_step (contents (snd (SeekToChunkContaining (opened tree_file 112) 600)))
         (CompressedSize (snd (SeekToChunkContaining (opened tree_file 112) 600)))) \<and>
   (\<exists>y. resolveSeekPosition (snd (SeekToChunkContaining (opened tree_file 112) 600)) = Some y)"
proof -
  let ?R = "opened tree_file 112"
  note O = opened_facts [OF tree_accepted]
  have sk: "snd (SeekToChunkContaining ?R 600)
      = ?R\<lparr>needToResolveSeekPosition := True, seekPosition := 600\<rparr>"
    using O(1,2) by (simp add: Seek_initialized)
  have c: "contents (snd (SeekToChunkContaining ?R 600)) = tree_file"
    "CompressedSize (snd (SeekToChunkContaining ?R 600)) = 112"
    unfolding sk using O(4,5) by (simp_all add: contents_def)
  have w: "wf (descent_step (contents (snd (SeekToChunkContaining ?R 600)))
      (CompressedSize (snd (SeekToChunkContaining ?R 600))))"
    unfolding c by (rule wf_tree_file)
  from resolveSeekPosition_terminates [OF w] w show ?thesis by blast
qed

section \<open>Root location\<close>

text \<open>One attempt at a placement, on a reader whose declared size is the length of the
  container: it succeeds exactly when the node there is valid with the right \<open>cPtrMax\<close>.\<close>

lemma tryRootNode_char:
  assumes c: "contents r = f" and n: "CompressedSize r = int (length f)"
    and a: "a \<noteq> 0" and sz: "nodeSize a \<le> length f"
    and off: "off = (if fe then length f - nodeSize a else 0)"
    and h: "f ! (off + 3) = a"
  shows "\<exists>rl. CompressedSize rl = CompressedSize r \<and> ReadSeeker rl = ReadSeeker r \<and>
           err rl = err r \<and> initialized rl = initialized r \<and>
           same_node (node_at f off) (currNode rl) \<and>
           tryRootNode r a fe =
             (if valid (node_at f off) \<and> cPtrMax (node_at f off) = int (length f)
              then ((True, None),
                    rl\<lparr>needToResolveSeekPosition := True, rootNodeCOffset := int off,
                       rootNodeArity := a, decompressedSize := dPtrMax (node_at f off)\<rparr>)
              else ((False, None), rl))"
proof -
  let ?rl = "r\<lparr>currNode := \<lambda>j. if j < nodeSize a then f ! (off + j) else currNode r j\<rparr>"
  let ?co = "if fe then CompressedSize r - int (nodeSize a) else 0"
  have co: "?co = int off" using off n sz by simp
  have fit: "nat (int off) + nodeSize a \<le> length (contents r)"
    using off sz c by simp
  have ld: "load r (int off) a = (None, ?rl)"
    using load_ok [OF a _ fit] unfolding c by (simp cong: if_cong)
  have sn: "same_node (node_at f off) (currNode ?rl)"
    using loaded_same_node [of "int off" a f "currNode r"] fit c h by (simp cong: if_cong)
  note s = same_node_valid [OF sn] same_node_fields [OF sn]
  have "tryRootNode r a fe =
      (if valid (node_at f off) \<and> cPtrMax (node_at f off) = int (length f)
       then ((True, None),
             ?rl\<lparr>needToResolveSeekPosition := True, rootNodeCOffset := int off,
                rootNodeArity := a, decompressedSize := dPtrMax (node_at f off)\<rparr>)
       else ((False, None), ?rl))"
    unfolding tryRootNode_def Let_def co
    using a sz n ld s by simp
  then show ?thesis using sn by (intro exI [of _ ?rl]) simp
qed


lemma take3_magic:
  assumes "3 \<le> length f"
  shows "take 3 f = magic \<longleftrightarrow> f ! 0 = 0x72 \<and> f ! 1 = 0xC3 \<and> f ! 2 = 0x63"
proof -
  have "take 3 f = [f ! 0, f ! 1, f ! 2]"
    using assms
    by (auto simp: list_eq_iff_nth_eq nth_Cons' numeral_3_eq_3 numeral_2_eq_2 less_Suc_eq)
  then show ?thesis by (simp add: magic_def)
qed

lemma nodeSize_ge: "a \<noteq> 0 \<Longrightarrow> 32 \<le> nodeSize a"
  using unat_eq_zero [of a] by (simp add: nodeSize_def)

lemma tail_root_length: "tail_root f \<Longrightarrow> 32 \<le> length f"
  using nodeSize_ge [of "last f"] by (simp add: tail_root_def)

text \<open>The first read of \<open>findRootNode\<close>, and the test of the magic bytes.\<close>

lemma findRootNode_no_magic:
  assumes "contents r = f" and "4 \<le> length f" and "take 3 f \<noteq> magic"
  shows "findRootNode r =
    (Some ErrMissingMagic,
     r\<lparr>currNode := \<lambda>j. if j < 4 then f ! j else currNode r j, err := Some ErrMissingMagic\<rparr>)"
proof -
  have rd: "readAt f (currNode r) 4 0 = (None, \<lambda>j. if j < 4 then f ! j else currNode r j)"
    using readAt_ok [of 0 4 f "currNode r"] assms(2) by (simp cong: if_cong)
  have "f ! 0 \<noteq> 0x72 \<or> f ! 1 \<noteq> 0xC3 \<or> f ! 2 \<noteq> 0x63"
    using assms(2,3) take3_magic [of f] by auto
  then show ?thesis
    unfolding findRootNode_def assms(1) rd by (auto simp: Let_def magic_def)
qed

lemma tryRootNode_head_fails:
  assumes c: "contents r = f" and n: "CompressedSize r = int (length f)"
    and nh: "\<not> head_root f" and l: "4 \<le> length f"
  shows "\<exists>r2. tryRootNode r (f ! 3) False = ((False, None), r2) \<and>
           ReadSeeker r2 = ReadSeeker r \<and> CompressedSize r2 = CompressedSize r \<and>
           err r2 = err r \<and> initialized r2 = initialized r"
proof (cases "f ! 3 \<noteq> 0 \<and> nodeSize (f ! 3) \<le> length f")
  case False
  then have "tryRootNode r (f ! 3) False = ((False, None), r)"
    using n by (auto simp: tryRootNode_def Let_def)
  then show ?thesis by blast
next
  case True
  then have a: "f ! 3 \<noteq> 0" and sz: "nodeSize (f ! 3) \<le> length f" by simp_all
  from tryRootNode_char [OF c n a sz, of 0 False] obtain rl
    where rl: "CompressedSize rl = CompressedSize r" "ReadSeeker rl = ReadSeeker r"
      "err rl = err r" "initialized rl = initialized r"
      and t: "tryRootNode r (f ! 3) False =
        (if valid (node_at f 0) \<and> cPtrMax (node_at f 0) = int (length f)
         then ((True, None),
               rl\<lparr>needToResolveSeekPosition := True, rootNodeCOffset := int 0,
                  rootNodeArity := f ! 3, decompressedSize := dPtrMax (node_at f 0)\<rparr>)
         else ((False, None), rl))"
    by auto
  have "\<not> (valid (node_at f 0) \<and> cPtrMax (node_at f 0) = int (length f))"
    using nh a sz by (simp add: head_root_def)
  then have "tryRootNode r (f ! 3) False = ((False, None), rl)" using t by simp
  then show ?thesis using rl by blast
qed

lemma tryRootNode_tail:
  assumes c: "contents r = f" and n: "CompressedSize r = int (length f)" and t: "tail_root f"
  shows "\<exists>r4. tryRootNode r (last f) True = ((True, None), r4) \<and>
           rootNodeCOffset r4 = int (tail_offset f) \<and> rootNodeArity r4 = last f \<and>
           decompressedSize r4 = dPtrMax (node_at f (tail_offset f)) \<and>
           same_node (node_at f (tail_offset f)) (currNode r4) \<and> err r4 = err r"
proof -
  have a: "last f \<noteq> 0" and sz: "nodeSize (last f) \<le> length f"
    and h: "f ! (tail_offset f + 3) = last f"
    and v: "valid (node_at f (tail_offset f))"
      "cPtrMax (node_at f (tail_offset f)) = int (length f)"
    using t nodeSize_ge [of "last f"]
    by (auto simp: tail_root_def node_at_def tail_offset_def split: if_splits)
  from tryRootNode_char [OF c n a sz, of "tail_offset f" True] h obtain rl
    where rl: "err rl = err r" "same_node (node_at f (tail_offset f)) (currNode rl)"
      and tr: "tryRootNode r (last f) True =
        (if valid (node_at f (tail_offset f)) \<and> cPtrMax (node_at f (tail_offset f)) = int (length f)
         then ((True, None),
               rl\<lparr>needToResolveSeekPosition := True, rootNodeCOffset := int (tail_offset f),
                  rootNodeArity := last f,
                  decompressedSize := dPtrMax (node_at f (tail_offset f))\<rparr>)
         else ((False, None), rl))"
    by (auto simp: tail_offset_def)
  show ?thesis using tr v rl by simp
qed


lemma findRootNode_head:
  assumes c: "contents r = f" and n: "CompressedSize r = int (length f)"
    and l: "4 \<le> length f" and m: "take 3 f = magic" and hr: "head_root f"
  shows "\<exists>r'. findRootNode r = (None, r') \<and> rootNodeCOffset r' = 0 \<and>
           rootNodeArity r' = f ! 3 \<and> decompressedSize r' = dPtrMax (node_at f 0) \<and>
           same_node (node_at f 0) (currNode r') \<and> err r' = err r"
proof -
  let ?b4 = "\<lambda>j. if j < 4 then f ! j else currNode r j"
  let ?r1 = "r\<lparr>currNode := ?b4\<rparr>"
  have rd: "readAt f (currNode r) 4 0 = (None, ?b4)"
    using readAt_ok [of 0 4 f "currNode r"] l by (simp cong: if_cong)
  have mg: "f ! 0 = 0x72 \<and> f ! 1 = 0xC3 \<and> f ! 2 = 0x63"
    using l m take3_magic [of f] by auto
  have c1: "contents ?r1 = f" "CompressedSize ?r1 = int (length f)" using c n by simp_all
  have a: "f ! 3 \<noteq> 0" and sz: "nodeSize (f ! 3) \<le> length f"
    and v: "valid (node_at f 0) \<and> cPtrMax (node_at f 0) = int (length f)"
    using hr by (simp_all add: head_root_def)
  from tryRootNode_char [OF c1 a sz, of 0 False] v obtain rl
    where rl: "err rl = err ?r1" "same_node (node_at f 0) (currNode rl)"
      and t: "tryRootNode ?r1 (f ! 3) False =
        ((True, None),
         rl\<lparr>needToResolveSeekPosition := True, rootNodeCOffset := int 0,
            rootNodeArity := f ! 3, decompressedSize := dPtrMax (node_at f 0)\<rparr>)"
    by auto
  have "findRootNode r =
      (None, rl\<lparr>needToResolveSeekPosition := True, rootNodeCOffset := int 0,
            rootNodeArity := f ! 3, decompressedSize := dPtrMax (node_at f 0)\<rparr>)"
    unfolding findRootNode_def c rd using mg t by (simp add: Let_def magic_def)
  then show ?thesis using rl by simp
qed

lemma findRootNode_tail:
  assumes c: "contents r = f" and n: "CompressedSize r = int (length f)"
    and m: "take 3 f = magic" and nh: "\<not> head_root f" and t: "tail_root f"
  shows "\<exists>r'. findRootNode r = (None, r') \<and> rootNodeCOffset r' = int (tail_offset f) \<and>
           rootNodeArity r' = last f \<and>
           decompressedSize r' = dPtrMax (node_at f (tail_offset f)) \<and>
           same_node (node_at f (tail_offset f)) (currNode r') \<and> err r' = err r"
proof -
  have l: "4 \<le> length f" "f \<noteq> []" using tail_root_length [OF t] by auto
  let ?b4 = "\<lambda>j. if j < 4 then f ! j else currNode r j"
  let ?r1 = "r\<lparr>currNode := ?b4\<rparr>"
  have rd: "readAt f (currNode r) 4 0 = (None, ?b4)"
    using readAt_ok [of 0 4 f "currNode r"] l by (simp cong: if_cong)
  have mg: "f ! 0 = 0x72 \<and> f ! 1 = 0xC3 \<and> f ! 2 = 0x63"
    using l m take3_magic [of f] by auto
  have c1: "contents ?r1 = f" "CompressedSize ?r1 = int (length f)" using c n by simp_all
  from tryRootNode_head_fails [OF c1 nh l(1)] obtain r2
    where h: "tryRootNode ?r1 (f ! 3) False = ((False, None), r2)"
      and r2: "ReadSeeker r2 = ReadSeeker r" "CompressedSize r2 = CompressedSize r"
        "err r2 = err r"
    by auto
  have c2: "contents r2 = f" using r2(1) c by (simp add: contents_def)
  let ?b1 = "\<lambda>j. if j < 1 then f ! (length f - 1 + j) else currNode r2 j"
  let ?r3 = "r2\<lparr>currNode := ?b1\<rparr>"
  have rd1: "readAt f (currNode r2) 1 (int (length f) - 1) = (None, ?b1)"
    using readAt_ok [of "int (length f) - 1" 1 f "currNode r2"] l
    by (simp add: nat_diff_distrib cong: if_cong)
  have b10: "?b1 0 = last f" using l(2) by (simp add: last_conv_nth)
  have c3: "contents ?r3 = f" "CompressedSize ?r3 = int (length f)" using c2 r2(2) n by simp_all
  from tryRootNode_tail [OF c3 t] obtain r4
    where t4: "tryRootNode ?r3 (last f) True = ((True, None), r4)"
      and r4: "rootNodeCOffset r4 = int (tail_offset f)" "rootNodeArity r4 = last f"
        "decompressedSize r4 = dPtrMax (node_at f (tail_offset f))"
        "same_node (node_at f (tail_offset f)) (currNode r4)" "err r4 = err ?r3"
    by blast
  have "findRootNode r = (None, r4)"
    unfolding findRootNode_def c rd
    using mg h t4 c2 r2(2) n rd1 b10 by (simp add: Let_def magic_def)
  then show ?thesis using r4 r2(3) by simp
qed


lemma initialize_fresh:
  assumes "32 \<le> length f"
  shows "initialize (newReader f (int (length f))) =
    (case findRootNode ((newReader f (int (length f)))\<lparr>initialized := True\<rparr>) of
       (Some e, r2) \<Rightarrow> (Some e, r2)
     | (None, r2) \<Rightarrow>
         if version (currNode r2) \<noteq> 1
         then (Some ErrUnsupportedVersion, r2\<lparr>err := Some ErrUnsupportedVersion\<rparr>)
         else (None, r2))"
  using assms by (simp add: initialize_def checkParameters_def newReader_def Let_def)

text \<open>
  C1, as the code has it. Let the container end with a valid tail-placed root. If its
  first three bytes are not the magic bytes, it is rejected for the missing magic bytes,
  before any placement is tried. If they are, the head placement is tried first and its
  root is taken when it yields one; otherwise the tail-placed root is taken. In both
  cases the container is accepted when the version of that root is 1.
\<close>

theorem tail_root_location:
  assumes "tail_root f"
  shows "fst (DecompressedSize (newReader f (int (length f)))) =
     (if take 3 f \<noteq> magic then (0, Some ErrMissingMagic)
      else if head_root f then
        (if version (node_at f 0) = 1 then (dPtrMax (node_at f 0), None)
         else (0, Some ErrUnsupportedVersion))
      else if version (node_at f (tail_offset f)) = 1
        then (dPtrMax (node_at f (tail_offset f)), None)
        else (0, Some ErrUnsupportedVersion)) \<and>
     (take 3 f = magic \<and> \<not> head_root f \<longrightarrow>
        rootNodeCOffset (opened f (int (length f))) = int (tail_offset f) \<and>
        rootNodeArity (opened f (int (length f))) = last f)"
proof -
  let ?n = "int (length f)"
  let ?r0 = "(newReader f ?n)\<lparr>initialized := True\<rparr>"
  have l: "32 \<le> length f" using assms by (rule tail_root_length)
  note ini = initialize_fresh [OF l]
  have c: "contents ?r0 = f" "CompressedSize ?r0 = ?n"
    by (simp_all add: contents_def newReader_def)
  show ?thesis
  proof (cases "take 3 f = magic")
    case False
    have "findRootNode ?r0 =
      (Some ErrMissingMagic,
       ?r0\<lparr>currNode := \<lambda>j. if j < 4 then f ! j else currNode ?r0 j,
           err := Some ErrMissingMagic\<rparr>)"
      using c(1) l False by (intro findRootNode_no_magic) simp_all
    then show ?thesis
      using False by (simp add: DecompressedSize_def ini)
  next
    case True
    show ?thesis
    proof (cases "head_root f")
      case hr: True
      from findRootNode_head [OF c _ True hr] l obtain r'
        where r': "findRootNode ?r0 = (None, r')" "decompressedSize r' = dPtrMax (node_at f 0)"
          "same_node (node_at f 0) (currNode r')"
        by auto
      have "version (currNode r') = version (node_at f 0)"
        using same_node_fields(3) [OF r'(3)] by simp
      then show ?thesis
        using True hr r'(1,2) by (simp add: DecompressedSize_def ini)
    next
      case nh: False
      from findRootNode_tail [OF c True nh assms] obtain r'
        where r': "findRootNode ?r0 = (None, r')"
          "decompressedSize r' = dPtrMax (node_at f (tail_offset f))"
          "same_node (node_at f (tail_offset f)) (currNode r')"
          "rootNodeCOffset r' = int (tail_offset f)" "rootNodeArity r' = last f"
        by auto
      have "version (currNode r') = version (node_at f (tail_offset f))"
        using same_node_fields(3) [OF r'(3)] by simp
      then show ?thesis
        using True nh r'(1,2,4,5) by (simp add: DecompressedSize_def opened_def ini)
    qed
  qed
qed

subsection \<open>The containers with a root at the tail\<close>

lemma crc_tail_node:
  "ChecksumIEEE [0x00, 0xFF, 0x64, 0x00, 0x00, 0x00, 0x00, 0x00, 0x00, 0x01,
      0x00, 0x00, 0x00, 0x00, 0x00, 0x00, 0x00, 0xFF,  0x24, 0x00, 0x00, 0x00, 0x00, 0x00, 0x01, 0x01]
   = 0xDF4C2236"
  by code_simp

lemma tail_files_length: "length tail_only_file = 36" "length tail_root_file = 36"
  by (simp_all add: tail_only_file_def tail_root_file_def tail_node_def)

lemma tail_files_last: "last tail_only_file = 1" "last tail_root_file = 1"
  by (simp_all add: tail_only_file_def tail_root_file_def tail_node_def)

lemma tail_files_offset: "tail_offset tail_only_file = 4" "tail_offset tail_root_file = 4"
  by (simp_all add: tail_offset_def tail_files_length tail_files_last nodeSize_def)

lemma tail_files_node:
  "node_at tail_only_file 4 = node_at tail_node 0" "node_at tail_root_file 4 = node_at tail_node 0"
  by (auto simp: node_at_def tail_only_file_def tail_root_file_def nth_append fun_eq_iff)

lemma valid_tail_node: "valid (node_at tail_node 0)"
  by (simp add: node_eval node_at_def tail_node_def crc_tail_node)

lemma tail_node_bytes: "node_at tail_node 0 3 = 1"
  by (simp add: node_at_def tail_node_def)

lemma tail_node_facts:
  "cPtrMax (node_at tail_node 0) = 36" "dPtrMax (node_at tail_node 0) = 100"
  "version (node_at tail_node 0) = 1"
  by (simp_all add: cPtrMax_def dPtrMax_def version_def tail_node_bytes)
    (simp_all add: u48LE_at_eval node_at_def tail_node_def)

lemma tail_root_tail_files: "tail_root tail_only_file" "tail_root tail_root_file"
  unfolding tail_root_def tail_files_offset tail_files_node tail_files_last tail_files_length
  using valid_tail_node tail_node_facts tail_node_bytes
  by (simp_all add: nodeSize_def tail_only_file_def tail_root_file_def)

text \<open>
  C1 as stated fails on \<open>tail_only_file\<close>: its first three bytes are not the magic bytes,
  it ends with a valid tail-placed root (arity 1, the last byte; \<open>cPtrMax = 36\<close>, the length),
  and \<open>DecompressedSize\<close> rejects it for the missing magic bytes.
\<close>

theorem tail_root_without_magic_counterexample:
  "take 3 tail_only_file \<noteq> magic \<and> tail_root tail_only_file \<and>
   fst (DecompressedSize (newReader tail_only_file 36)) = (0, Some ErrMissingMagic) \<and>
   err (opened tail_only_file 36) = Some ErrMissingMagic"
proof -
  have "take 3 tail_only_file \<noteq> magic"
    by (simp add: tail_only_file_def magic_def)
  moreover have "fst (DecompressedSize (newReader tail_only_file 36)) = (0, Some ErrMissingMagic)"
    by (simp add: reader_eval Let_def tail_only_file_def tail_node_def magic_def)
  moreover have "err (opened tail_only_file 36) = Some ErrMissingMagic"
    by (simp add: opened_def reader_eval Let_def tail_only_file_def tail_node_def magic_def)
  ultimately show ?thesis using tail_root_tail_files(1) by simp
qed

theorem tail_root_location_witness:
  "tail_root tail_root_file \<and> take 3 tail_root_file = magic \<and> \<not> head_root tail_root_file \<and>
   fst (DecompressedSize (newReader tail_root_file 36)) = (100, None) \<and>
   rootNodeCOffset (opened tail_root_file 36) = 4 \<and>
   rootNodeArity (opened tail_root_file 36) = 1"
proof -
  have m: "take 3 tail_root_file = magic"
    by (simp add: tail_root_file_def magic_def)
  have h: "\<not> head_root tail_root_file"
    by (simp add: head_root_def tail_root_file_def)
  from tail_root_location [OF tail_root_tail_files(2)]
  show ?thesis
    using m h tail_root_tail_files(2)
    unfolding tail_files_offset tail_files_node tail_files_last tail_files_length
    by (simp add: tail_node_facts)
qed

end
